theory Spec2Isabelle
  imports Main "HOL-Library.Sublist" "HOL-Library.AList"
begin

section \<open>JavaScript strings\<close>

text \<open>
  The service \<^verbatim>\<open>apps/desktop/electron/services/llm.ts\<close> works on JavaScript strings,
  which are sequences of UTF-16 code units. A string is modelled as the list of its
  code units (natural numbers below 65536); \<open>js\<close> turns an ASCII literal into such a
  list. The characters the code tests for are named below.
\<close>

type_synonym jsstring = "nat list"

definition js :: "string \<Rightarrow> jsstring" where
  "js s = map of_char s"

abbreviation (input) LBRACE :: nat where "LBRACE \<equiv> 123"
abbreviation (input) RBRACE :: nat where "RBRACE \<equiv> 125"
abbreviation (input) LBRACKET :: nat where "LBRACKET \<equiv> 91"
abbreviation (input) RBRACKET :: nat where "RBRACKET \<equiv> 93"
abbreviation (input) DQUOTE :: nat where "DQUOTE \<equiv> 34"
abbreviation (input) BACKSLASH :: nat where "BACKSLASH \<equiv> 92"
abbreviation (input) BACKTICK :: nat where "BACKTICK \<equiv> 96"
abbreviation (input) COLON :: nat where "COLON \<equiv> 58"
abbreviation (input) NEWLINE :: nat where "NEWLINE \<equiv> 10"

text \<open>
  ECMAScript \<^verbatim>\<open>WhiteSpace\<close> and \<^verbatim>\<open>LineTerminator\<close>: the code units removed by
  \<^verbatim>\<open>String.prototype.trim\<close> and matched by \<^verbatim>\<open>\s\<close> in a regular expression.
\<close>

definition isWhiteSpace :: "nat \<Rightarrow> bool" where
  "isWhiteSpace c \<longleftrightarrow>
     c = 9 \<or> c = 10 \<or> c = 11 \<or> c = 12 \<or> c = 13 \<or> c = 32 \<or> c = 160 \<or> c = 5760 \<or>
     (8192 \<le> c \<and> c \<le> 8202) \<or> c = 8232 \<or> c = 8233 \<or> c = 8239 \<or> c = 8287 \<or>
     c = 12288 \<or> c = 65279"

definition trim :: "jsstring \<Rightarrow> jsstring" where
  "trim s = rev (dropWhile isWhiteSpace (rev (dropWhile isWhiteSpace s)))"

definition startsWith :: "jsstring \<Rightarrow> jsstring \<Rightarrow> bool" where
  "startsWith s p \<longleftrightarrow> take (length p) s = p"

definition endsWith :: "jsstring \<Rightarrow> jsstring \<Rightarrow> bool" where
  "endsWith s p \<longleftrightarrow> length p \<le> length s \<and> drop (length s - length p) s = p"

text \<open>\<^verbatim>\<open>s.indexOf(c)\<close> for a single character; \<open>None\<close> stands for the result \<^verbatim>\<open>-1\<close>.\<close>

fun indexOfChar :: "nat \<Rightarrow> jsstring \<Rightarrow> nat option" where
  "indexOfChar c [] = None"
| "indexOfChar c (x # xs) = (if x = c then Some 0 else map_option Suc (indexOfChar c xs))"

text \<open>
  \<^verbatim>\<open>s.substring(a, b)\<close> for \<open>0 \<le> a\<close>: both bounds are clamped to the length and swapped
  when \<open>b < a\<close>.
\<close>

definition substring :: "jsstring \<Rightarrow> nat \<Rightarrow> nat \<Rightarrow> jsstring" where
  "substring s a b =
     (let a' = min a (length s); b' = min b (length s)
      in take (max a' b' - min a' b') (drop (min a' b') s))"

section \<open>Response repair and extraction: \<^verbatim>\<open>extractJsonFromResponse\<close>\<close>

datatype error = NoJsonFound | IncompleteJson

text \<open>
  Lines 1036-1047: trim, drop a leading \<^verbatim>\<open>```json\<close> or \<^verbatim>\<open>```\<close>, drop a trailing
  \<^verbatim>\<open>```\<close>, trim again.
\<close>

definition stripFences :: "jsstring \<Rightarrow> jsstring" where
  "stripFences responseText =
     (let c0 = trim responseText;
          c1 = (if startsWith c0 (js ''```json'') then drop 7 c0
                else if startsWith c0 (js ''```'') then drop 3 c0
                else c0);
          c2 = (if endsWith c1 (js ''```'') then take (length c1 - 3) c1 else c1)
      in trim c2)"

text \<open>
  Lines 1055-1069: the escape function applied to the interior of a backtick value.
  \<^verbatim>\<open>toString(16)\<close> gives lower-case hexadecimal digits without padding; the code
  prepends \<^verbatim>\<open>'0000'\<close> and keeps the last four characters.
\<close>

definition hexDigit :: "nat \<Rightarrow> nat" where
  "hexDigit d = (if d < 10 then 48 + d else 87 + d)"

fun toHex :: "nat \<Rightarrow> jsstring" where
  "toHex n = (if n < 16 then [hexDigit n] else toHex (n div 16) @ [hexDigit (n mod 16)])"

declare toHex.simps [simp del]

definition unicodeEscape :: "nat \<Rightarrow> jsstring" where
  "unicodeEscape c =
     (let padded = js ''0000'' @ toHex c
      in [BACKSLASH, 117] @ drop (length padded - 4) padded)"

definition inEscapeClass :: "nat \<Rightarrow> bool" where
  "inEscapeClass c \<longleftrightarrow> c \<le> 31 \<or> (127 \<le> c \<and> c \<le> 159) \<or> c = DQUOTE \<or> c = BACKSLASH"

definition escapeChar :: "nat \<Rightarrow> jsstring" where
  "escapeChar c =
     (if c = DQUOTE then [BACKSLASH, DQUOTE]
      else if c = BACKSLASH then [BACKSLASH, BACKSLASH]
      else if c = 8 then [BACKSLASH, 98]
      else if c = 12 then [BACKSLASH, 102]
      else if c = 10 then [BACKSLASH, 110]
      else if c = 13 then [BACKSLASH, 114]
      else if c = 9 then [BACKSLASH, 116]
      else unicodeEscape c)"

definition jsonEscape :: "jsstring \<Rightarrow> jsstring" where
  "jsonEscape content = concat (map (\<lambda>c. if inEscapeClass c then escapeChar c else [c]) content)"

text \<open>
  Line 1053: \<^verbatim>\<open>replace(/:\s*`([\s\S]*?)`/g, ...)\<close>. A match starts at a colon; the greedy
  \<^verbatim>\<open>\s*\<close> takes every following white-space character (none of them is a backtick, so
  giving some back never helps); then a backtick must follow, and the lazy group ends
  at the first later backtick. \<open>backtickValue\<close> is given the text after the colon and
  returns the group and the text after the closing backtick. The global replace
  tries each position from left to right and resumes after a match.
\<close>

definition backtickValue :: "jsstring \<Rightarrow> (jsstring \<times> jsstring) option" where
  "backtickValue cs =
     (case dropWhile isWhiteSpace cs of
        [] \<Rightarrow> None
      | c # r \<Rightarrow>
          if c = BACKTICK \<and> BACKTICK \<in> set r
          then Some (takeWhile (\<lambda>x. x \<noteq> BACKTICK) r, tl (dropWhile (\<lambda>x. x \<noteq> BACKTICK) r))
          else None)"

function repairBackticks :: "jsstring \<Rightarrow> jsstring" where
  "repairBackticks [] = []"
| "repairBackticks (c # cs) =
     (if c = COLON then
        (case backtickValue cs of
           Some (content, rest) \<Rightarrow>
             [COLON, 32, DQUOTE] @ jsonEscape content @ [DQUOTE] @ repairBackticks rest
         | None \<Rightarrow> c # repairBackticks cs)
      else c # repairBackticks cs)"
  by pat_completeness auto
termination
proof (relation "measure length")
  fix c :: nat and cs x2 content rest
  assume "backtickValue cs = Some x2" and "(content, rest) = x2"
  then obtain d r where d: "dropWhile isWhiteSpace cs = d # r"
    and rest: "rest = tl (dropWhile (\<lambda>x. x \<noteq> BACKTICK) r)"
    by (auto simp: backtickValue_def split: list.splits if_splits)
  have "length (dropWhile (\<lambda>x. x \<noteq> BACKTICK) r) \<le> length r"
    by (rule length_dropWhile_le)
  then have "length rest \<le> length r"
    unfolding rest by simp
  moreover have "length (d # r) \<le> length cs"
    using length_dropWhile_le [of isWhiteSpace cs] d by simp
  ultimately show "(rest, c # cs) \<in> measure length" by simp
qed auto

text \<open>Lines 1074-1082: the earlier of the first \<^verbatim>\<open>{\<close> and the first \<^verbatim>\<open>[\<close>.\<close>

definition jsonStartIndex :: "jsstring \<Rightarrow> nat option" where
  "jsonStartIndex cleaned =
     (let firstBrace = indexOfChar LBRACE cleaned;
          firstBracket = indexOfChar LBRACKET cleaned
      in case firstBrace of
           Some b \<Rightarrow>
             (case firstBracket of
                None \<Rightarrow> Some b
              | Some k \<Rightarrow> if b < k then Some b else Some k)
         | None \<Rightarrow> firstBracket)"

text \<open>
  Lines 1088-1123: the scanning loop. The arguments are the loop index, the two
  counters, the two flags and the characters from the index on. The result is
  \<^verbatim>\<open>jsonEndIndex\<close>, with \<open>None\<close> for \<^verbatim>\<open>-1\<close>.
\<close>

fun scanJsonEnd :: "nat \<Rightarrow> int \<Rightarrow> int \<Rightarrow> bool \<Rightarrow> bool \<Rightarrow> jsstring \<Rightarrow> nat option" where
  "scanJsonEnd i openBraces openBrackets inString escapeNext [] = None"
| "scanJsonEnd i openBraces openBrackets inString escapeNext (c # cs) =
     (if escapeNext then scanJsonEnd (i + 1) openBraces openBrackets inString False cs
      else if c = BACKSLASH then scanJsonEnd (i + 1) openBraces openBrackets inString True cs
      else if c = DQUOTE then scanJsonEnd (i + 1) openBraces openBrackets (\<not> inString) False cs
      else if \<not> inString then
        (let openBraces' = (if c = LBRACE then openBraces + 1
                            else if c = RBRACE then openBraces - 1 else openBraces);
             openBrackets' = (if c = LBRACE \<or> c = RBRACE then openBrackets
                              else if c = LBRACKET then openBrackets + 1
                              else if c = RBRACKET then openBrackets - 1 else openBrackets)
         in if openBraces' = 0 \<and> openBrackets' = 0 \<and> (c = RBRACE \<or> c = RBRACKET)
            then Some i
            else scanJsonEnd (i + 1) openBraces' openBrackets' inString False cs)
      else scanJsonEnd (i + 1) openBraces openBrackets inString False cs)"

definition cleanedText :: "jsstring \<Rightarrow> jsstring" where
  "cleanedText responseText = repairBackticks (stripFences responseText)"

definition extractJsonFromResponse :: "jsstring \<Rightarrow> error + jsstring" where
  "extractJsonFromResponse responseText =
     (let cleanedResponse = cleanedText responseText
      in case jsonStartIndex cleanedResponse of
           None \<Rightarrow> Inl NoJsonFound
         | Some startIndex \<Rightarrow>
             (case scanJsonEnd startIndex 0 0 False False (drop startIndex cleanedResponse) of
                None \<Rightarrow> Inl IncompleteJson
              | Some jsonEndIndex \<Rightarrow>
                  Inr (substring cleanedResponse startIndex (jsonEndIndex + 1))))"

subsection \<open>The scan as a state machine\<close>

text \<open>
  One iteration of the scanning loop as a function on the loop's variables
  (\<open>openBraces\<close>, \<open>openBrackets\<close>, \<open>inString\<close>, \<open>escapeNext\<close>), and the condition under
  which an iteration reaches \<^verbatim>\<open>break\<close>. \<open>breaksAt u n\<close> says that the loop, started on
  \<open>u\<close>, reaches \<^verbatim>\<open>break\<close> in the iteration for index \<open>n\<close> if it gets there.
\<close>

type_synonym scan_state = "int \<times> int \<times> bool \<times> bool"

definition scanStep :: "scan_state \<Rightarrow> nat \<Rightarrow> scan_state" where
  "scanStep st c =
     (case st of (openBraces, openBrackets, inString, escapeNext) \<Rightarrow>
        if escapeNext then (openBraces, openBrackets, inString, False)
        else if c = BACKSLASH then (openBraces, openBrackets, inString, True)
        else if c = DQUOTE then (openBraces, openBrackets, \<not> inString, False)
        else if inString then (openBraces, openBrackets, inString, False)
        else if c = LBRACE then (openBraces + 1, openBrackets, inString, False)
        else if c = RBRACE then (openBraces - 1, openBrackets, inString, False)
        else if c = LBRACKET then (openBraces, openBrackets + 1, inString, False)
        else if c = RBRACKET then (openBraces, openBrackets - 1, inString, False)
        else (openBraces, openBrackets, inString, False))"

definition closesNesting :: "scan_state \<Rightarrow> nat \<Rightarrow> bool" where
  "closesNesting st c \<longleftrightarrow>
     (case st of (openBraces, openBrackets, inString, escapeNext) \<Rightarrow>
        \<not> escapeNext \<and> \<not> inString \<and> (c = RBRACE \<or> c = RBRACKET) \<and>
        scanStep st c = (0, 0, False, False))"

definition breaksAt :: "jsstring \<Rightarrow> nat \<Rightarrow> bool" where
  "breaksAt u n \<longleftrightarrow>
     n < length u \<and> closesNesting (foldl scanStep (0, 0, False, False) (take n u)) (u ! n)"

subsection \<open>String literals and nesting as the specification describes them\<close>

text \<open>
  The definitions of this subsection are not taken from the code. They follow the
  words of section 4.2, step 4, of the specification, and the properties of
  \<^verbatim>\<open>extractJsonFromResponse\<close> are stated against them.

  The specification reads string literals with an \<^verbatim>\<open>inString\<close> flag toggled by unescaped
  double quotes and an \<^verbatim>\<open>escapeNext\<close> flag that is set after a backslash inside a string
  and consumes exactly one following character. \<open>readStep\<close> is this reading of one
  character, on the pair (\<open>inString\<close>, \<open>escapeNext\<close>). \<open>outsideStrings st u\<close> lists the
  characters of \<open>u\<close> that are outside string literals, in their order, the quotes that
  delimit the literals left out.

  \<open>noStrayBackslash u\<close>: no backslash of \<open>u\<close> is outside a string literal.

  \<open>nestingBalancedAt u n\<close>: the character of \<open>u\<close> at index \<open>n\<close> is a closing brace or
  bracket outside a string literal, and among the characters outside string literals
  up to it there are as many \<^verbatim>\<open>}\<close> as \<^verbatim>\<open>{\<close> and as many \<^verbatim>\<open>]\<close> as \<^verbatim>\<open>[\<close>.
\<close>

definition readStep :: "bool \<times> bool \<Rightarrow> nat \<Rightarrow> bool \<times> bool" where
  "readStep st c =
     (case st of (inString, escapeNext) \<Rightarrow>
        if escapeNext then (inString, False)
        else if inString \<and> c = BACKSLASH then (inString, True)
        else if c = DQUOTE then (\<not> inString, False)
        else (inString, False))"

fun outsideStrings :: "bool \<times> bool \<Rightarrow> jsstring \<Rightarrow> jsstring" where
  "outsideStrings st [] = []"
| "outsideStrings st (c # cs) =
     (if st = (False, False) \<and> c \<noteq> DQUOTE then c # outsideStrings (readStep st c) cs
      else outsideStrings (readStep st c) cs)"

definition noStrayBackslash :: "jsstring \<Rightarrow> bool" where
  "noStrayBackslash u \<longleftrightarrow> BACKSLASH \<notin> set (outsideStrings (False, False) u)"

definition nestingBalancedAt :: "jsstring \<Rightarrow> nat \<Rightarrow> bool" where
  "nestingBalancedAt u n \<longleftrightarrow>
     n < length u \<and> (u ! n = RBRACE \<or> u ! n = RBRACKET) \<and>
     foldl readStep (False, False) (take n u) = (False, False) \<and>
     (let outside = outsideStrings (False, False) (take (Suc n) u)
      in count_list outside LBRACE = count_list outside RBRACE \<and>
         count_list outside LBRACKET = count_list outside RBRACKET)"

text \<open>
  The scan of the specification: the same reading of string literals and one combined
  counter, incremented on \<^verbatim>\<open>{\<close> and \<^verbatim>\<open>[\<close> and decremented on \<^verbatim>\<open>}\<close> and \<^verbatim>\<open>]\<close> outside
  strings. It ends at the first position where the counter returns to zero after
  having gone positive; \<open>None\<close> stands for the end of input reached before that.
\<close>

fun specScanEnd :: "nat \<Rightarrow> int \<Rightarrow> bool \<Rightarrow> bool \<Rightarrow> bool \<Rightarrow> jsstring \<Rightarrow> nat option" where
  "specScanEnd i counter wasPositive inString escapeNext [] = None"
| "specScanEnd i counter wasPositive inString escapeNext (c # cs) =
     (if escapeNext then specScanEnd (i + 1) counter wasPositive inString False cs
      else if inString \<and> c = BACKSLASH then specScanEnd (i + 1) counter wasPositive inString True cs
      else if c = DQUOTE then specScanEnd (i + 1) counter wasPositive (\<not> inString) False cs
      else if \<not> inString then
        (let counter' = (if c = LBRACE \<or> c = LBRACKET then counter + 1
                         else if c = RBRACE \<or> c = RBRACKET then counter - 1 else counter)
         in if counter' = 0 \<and> wasPositive then Some i
            else specScanEnd (i + 1) counter' (wasPositive \<or> 0 < counter') inString False cs)
      else specScanEnd (i + 1) counter wasPositive inString False cs)"


section \<open>The inline extraction of \<^verbatim>\<open>generateInstrumentationPlan\<close>\<close>

text \<open>
  Lines 409-476 prepare the text given to \<^verbatim>\<open>JSON.parse\<close> with code of their own.

  Line 415: \<^verbatim>\<open>/```(?:json)?\s*\n?([\s\S]*?)\n?```/\<close> on a text that starts with a
  fence. \<open>upToFence\<close> is the lazy group: the text before the first place where
  \<^verbatim>\<open>\n?```\<close> matches. After the opening fence the greedy choices take \<^verbatim>\<open>json\<close> when
  it is there and then all white space. When no closing fence follows them, none
  follows any other choice either (the characters given back are letters or white
  space), and no later start has a closing fence: the match fails.
\<close>

fun upToFence :: "jsstring \<Rightarrow> jsstring option" where
  "upToFence [] = None"
| "upToFence (c # cs) =
     (if startsWith (c # cs) (js ''```'') \<or> startsWith (c # cs) (NEWLINE # js ''```'')
      then Some []
      else map_option ((#) c) (upToFence cs))"

definition fenceMatch :: "jsstring \<Rightarrow> jsstring option" where
  "fenceMatch jsonText =
     (let afterFence = drop 3 jsonText;
          afterTag = (if startsWith afterFence (js ''json'') then drop 4 afterFence else afterFence)
      in upToFence (dropWhile isWhiteSpace afterTag))"

text \<open>
  Line 420, the fallback: \<^verbatim>\<open>replace(/^```(?:json)?\n?/, '')\<close>, then
  \<^verbatim>\<open>replace(/\n?```[\s\S]*$/, '')\<close>, then \<^verbatim>\<open>trim\<close>.
\<close>

definition removeMarkers :: "jsstring \<Rightarrow> jsstring" where
  "removeMarkers jsonText =
     (let afterFence = drop 3 jsonText;
          afterTag = (if startsWith afterFence (js ''json'') then drop 4 afterFence else afterFence);
          afterNewline = (if startsWith afterTag [NEWLINE] then drop 1 afterTag else afterTag)
      in trim (case upToFence afterNewline of Some kept \<Rightarrow> kept | None \<Rightarrow> afterNewline))"

text \<open>Lines 443-472: the scanning loop with its single counter.\<close>

fun scanLastBrace :: "nat \<Rightarrow> int \<Rightarrow> bool \<Rightarrow> bool \<Rightarrow> jsstring \<Rightarrow> nat option" where
  "scanLastBrace i braceCount inString escapeNext [] = None"
| "scanLastBrace i braceCount inString escapeNext (c # cs) =
     (if escapeNext then scanLastBrace (i + 1) braceCount inString False cs
      else if c = BACKSLASH then scanLastBrace (i + 1) braceCount inString True cs
      else if c = DQUOTE then scanLastBrace (i + 1) braceCount (\<not> inString) False cs
      else if \<not> inString then
        (if c = LBRACE \<or> c = LBRACKET then scanLastBrace (i + 1) (braceCount + 1) inString False cs
         else if c = RBRACE \<or> c = RBRACKET then
           (if braceCount - 1 = 0 then Some i
            else scanLastBrace (i + 1) (braceCount - 1) inString False cs)
         else scanLastBrace (i + 1) braceCount inString False cs)
      else scanLastBrace (i + 1) braceCount inString False cs)"

text \<open>
  \<open>planJsonText response\<close> is the value of \<^verbatim>\<open>jsonText\<close> at line 478, where it is given to
  \<^verbatim>\<open>JSON.parse\<close>.
\<close>

definition planJsonText :: "jsstring \<Rightarrow> jsstring" where
  "planJsonText response =
     (let t0 = trim response;
          t1 = (if startsWith t0 (js ''```'') then
                  (case fenceMatch t0 of
                     Some body \<Rightarrow> trim body
                   | None \<Rightarrow> removeMarkers t0)
                else t0);
          t2 = (if \<not> startsWith t1 [LBRACE] \<and> \<not> startsWith t1 [LBRACKET] then
                  (case (indexOfChar LBRACE t1, indexOfChar LBRACKET t1) of
                     (None, None) \<Rightarrow> t1
                   | (Some a, None) \<Rightarrow> drop a t1
                   | (None, Some b) \<Rightarrow> drop b t1
                   | (Some a, Some b) \<Rightarrow> drop (min a b) t1)
                else t1)
      in case scanLastBrace 0 0 False False t2 of
           None \<Rightarrow> t2
         | Some lastBrace \<Rightarrow> if 0 < lastBrace then substring t2 0 (lastBrace + 1) else t2)"

section \<open>Span extractor: \<^verbatim>\<open>extractSpansFromText\<close> and its helpers\<close>

datatype layer = Frontend | Backend

text \<open>
  \<^verbatim>\<open>SpanDefinition\<close>. The \<^verbatim>\<open>attributes\<close> object is kept as an association list in
  insertion order; \<^verbatim>\<open>pii\<close> has the single field \<^verbatim>\<open>keys\<close>.
\<close>

record span_definition =
  name :: jsstring
  op :: jsstring
  layer :: layer
  description :: jsstring
  attributes :: "(jsstring \<times> jsstring) list"
  pii_keys :: "jsstring list"

subsection \<open>Character classes and string helpers\<close>

definition isLower :: "nat \<Rightarrow> bool" where
  "isLower c \<longleftrightarrow> 97 \<le> c \<and> c \<le> 122"

definition isAlpha :: "nat \<Rightarrow> bool" where
  "isAlpha c \<longleftrightarrow> isLower c \<or> (65 \<le> c \<and> c \<le> 90)"

definition isAttrChar :: "nat \<Rightarrow> bool" where
  "isAttrChar c \<longleftrightarrow> isLower c \<or> c = 95"

definition isLineTerminator :: "nat \<Rightarrow> bool" where
  "isLineTerminator c \<longleftrightarrow> c = 10 \<or> c = 13 \<or> c = 8232 \<or> c = 8233"

text \<open>
  \<^verbatim>\<open>toLowerCase\<close>. ASCII capitals map to their small letters. Two other code units have
  a lower-case form that holds an ASCII letter: U+0130 gives \<^verbatim>\<open>i\<close> followed by U+0307,
  and U+212A (the Kelvin sign) gives \<^verbatim>\<open>k\<close>. Every other code unit outside ASCII
  lower-cases to code units outside ASCII, of the same number; the model leaves it
  unchanged, which does not change where an ASCII word occurs.
\<close>

definition lowerUnit :: "nat \<Rightarrow> jsstring" where
  "lowerUnit c =
     (if 65 \<le> c \<and> c \<le> 90 then [c + 32]
      else if c = 304 then [105, 775]
      else if c = 8490 then [107]
      else [c])"

definition toLowerCase :: "jsstring \<Rightarrow> jsstring" where
  "toLowerCase s = concat (map lowerUnit s)"

text \<open>\<^verbatim>\<open>hay.indexOf(needle)\<close>, with \<open>None\<close> for \<^verbatim>\<open>-1\<close>, and \<^verbatim>\<open>hay.includes(needle)\<close>.\<close>

fun indexOf :: "jsstring \<Rightarrow> jsstring \<Rightarrow> nat option" where
  "indexOf needle [] = (if needle = [] then Some 0 else None)"
| "indexOf needle (h # hs) =
     (if startsWith (h # hs) needle then Some 0 else map_option Suc (indexOf needle hs))"

definition strIncludes :: "jsstring \<Rightarrow> jsstring \<Rightarrow> bool" where
  "strIncludes hay needle \<longleftrightarrow> indexOf needle hay \<noteq> None"

text \<open>
  A regular expression of the shape \<^verbatim>\<open>\s*(C+)\<close>, possibly followed by a condition on
  what comes next: the greedy \<^verbatim>\<open>\s*\<close> first takes all white space and then gives it back
  one character at a time; at each start the group takes the longest run of characters
  of the class \<open>C\<close>, which must be non-empty. \<open>consumed\<close> is the white space taken so far,
  last character first.
\<close>

fun captureBack ::
  "(nat \<Rightarrow> bool) \<Rightarrow> (jsstring \<Rightarrow> bool) \<Rightarrow> jsstring \<Rightarrow> jsstring \<Rightarrow> jsstring option" where
  "captureBack inClass follows [] rest =
     (if takeWhile inClass rest \<noteq> [] \<and> follows (dropWhile inClass rest)
      then Some (takeWhile inClass rest) else None)"
| "captureBack inClass follows (w # consumed) rest =
     (if takeWhile inClass rest \<noteq> [] \<and> follows (dropWhile inClass rest)
      then Some (takeWhile inClass rest)
      else captureBack inClass follows consumed (w # rest))"

definition wsCapture :: "(nat \<Rightarrow> bool) \<Rightarrow> (jsstring \<Rightarrow> bool) \<Rightarrow> jsstring \<Rightarrow> jsstring option" where
  "wsCapture inClass follows cs =
     captureBack inClass follows (rev (takeWhile isWhiteSpace cs)) (dropWhile isWhiteSpace cs)"

subsection \<open>The two span-name patterns\<close>

text \<open>
  \<^verbatim>\<open>(?:\.[a-zA-Z]+)*\<close> at the head of the text: the dotted segments and the text after
  them. Each segment takes the longest run of letters.
\<close>

function dottedTail :: "jsstring \<Rightarrow> jsstring \<times> jsstring" where
  "dottedTail [] = ([], [])"
| "dottedTail (c # r) =
     (if c = 46 \<and> takeWhile isAlpha r \<noteq> []
      then (case dottedTail (dropWhile isAlpha r) of
              (segments, rest) \<Rightarrow> (46 # takeWhile isAlpha r @ segments, rest))
      else ([], c # r))"
  by pat_completeness auto
termination
  by (relation "measure length") (auto simp: length_dropWhile_le less_Suc_eq_le)

text \<open>
  \<^verbatim>\<open>([a-z]+(?:\.[a-zA-Z]+)+)\<close> at the head of the text, with \<open>first\<close> the class of the
  first segment (\<^verbatim>\<open>[a-z]\<close>, or \<^verbatim>\<open>[a-zA-Z]\<close> under the flag \<^verbatim>\<open>i\<close>): the name and the
  text after it.
\<close>

definition dottedName :: "(nat \<Rightarrow> bool) \<Rightarrow> jsstring \<Rightarrow> (jsstring \<times> jsstring) option" where
  "dottedName first cs =
     (if takeWhile first cs = [] then None
      else case dottedTail (dropWhile first cs) of
             (segments, rest) \<Rightarrow>
               if segments = [] then None else Some (takeWhile first cs @ segments, rest))"

text \<open>
  Line 85: \<^verbatim>\<open>/`([a-z]+(?:\.[a-zA-Z]+)+)`/g\<close>. \<open>codeBlockAt\<close> is given the text after an
  opening backtick; \<open>codeBlockMatches\<close> lists \<^verbatim>\<open>match[1]\<close> of every match, searching on
  after the end of each one.
\<close>

definition codeBlockAt :: "jsstring \<Rightarrow> (jsstring \<times> jsstring) option" where
  "codeBlockAt cs =
     (case dottedName isLower cs of
        None \<Rightarrow> None
      | Some (spanName, rest) \<Rightarrow>
          (case rest of
             [] \<Rightarrow> None
           | c # r \<Rightarrow> if c = BACKTICK then Some (spanName, r) else None))"

lemma dottedTail_length: "length (snd (dottedTail cs)) \<le> length cs"
proof (induction cs rule: dottedTail.induct)
  case 1
  show ?case by simp
next
  case (2 c r)
  have "length (dropWhile isAlpha r) \<le> length r"
    by (rule length_dropWhile_le)
  with 2 show ?case
    by (auto split: prod.splits)
qed

lemma dottedName_length:
  assumes "dottedName first cs = Some (nm, rest)"
  shows "length rest \<le> length cs"
proof -
  from assms have "rest = snd (dottedTail (dropWhile first cs))"
    by (auto simp: dottedName_def split: if_splits prod.splits)
  then have "length rest \<le> length (dropWhile first cs)"
    using dottedTail_length by simp
  also have "\<dots> \<le> length cs"
    by (rule length_dropWhile_le)
  finally show ?thesis .
qed

lemma codeBlockAt_length:
  assumes "codeBlockAt cs = Some (nm, rest)"
  shows "length rest < length cs"
  using assms dottedName_length [of isLower cs]
  by (auto simp: codeBlockAt_def split: option.splits list.splits if_splits)

function codeBlockMatches :: "jsstring \<Rightarrow> jsstring list" where
  "codeBlockMatches [] = []"
| "codeBlockMatches (c # cs) =
     (if c = BACKTICK then
        (case codeBlockAt cs of
           Some (spanName, rest) \<Rightarrow> spanName # codeBlockMatches rest
         | None \<Rightarrow> codeBlockMatches cs)
      else codeBlockMatches cs)"
  by pat_completeness auto
termination
  by (relation "measure length") (auto dest: codeBlockAt_length)

text \<open>
  Line 115: \<^verbatim>\<open>/span.*?[:`]\s*([a-z]+(?:\.[a-zA-Z]+)+)/gi\<close>. \<open>explicitFrom\<close> is given the
  text after the word \<^verbatim>\<open>span\<close>: the lazy \<^verbatim>\<open>.*?\<close> grows one character at a time, never
  over a line terminator, until a colon or backtick is followed, after any white space,
  by a dotted name; the name takes as many segments as there are.
\<close>

fun explicitFrom :: "jsstring \<Rightarrow> (jsstring \<times> jsstring) option" where
  "explicitFrom [] = None"
| "explicitFrom (c # cs) =
     (if (c = COLON \<or> c = BACKTICK) \<and> dottedName isAlpha (dropWhile isWhiteSpace cs) \<noteq> None
      then dottedName isAlpha (dropWhile isWhiteSpace cs)
      else if isLineTerminator c then None
      else explicitFrom cs)"

definition startsWithSpan :: "jsstring \<Rightarrow> bool" where
  "startsWithSpan cs \<longleftrightarrow>
     (case cs of
        s # p # a # n # _ \<Rightarrow>
          (s = 115 \<or> s = 83) \<and> (p = 112 \<or> p = 80) \<and> (a = 97 \<or> a = 65) \<and> (n = 110 \<or> n = 78)
      | _ \<Rightarrow> False)"

lemma explicitFrom_length:
  "explicitFrom cs = Some (nm, rest) \<Longrightarrow> length rest < length cs"
proof (induction cs)
  case Nil
  then show ?case by simp
next
  case (Cons c cs)
  show ?case
  proof (cases "(c = COLON \<or> c = BACKTICK) \<and> dottedName isAlpha (dropWhile isWhiteSpace cs) \<noteq> None")
    case True
    with Cons.prems have "dottedName isAlpha (dropWhile isWhiteSpace cs) = Some (nm, rest)"
      by simp
    then have "length rest \<le> length (dropWhile isWhiteSpace cs)"
      by (rule dottedName_length)
    also have "\<dots> \<le> length cs"
      by (rule length_dropWhile_le)
    finally show ?thesis by simp
  next
    case False
    with Cons.prems have "explicitFrom cs = Some (nm, rest)"
      by (auto split: if_splits)
    with Cons.IH show ?thesis by simp
  qed
qed

function explicitMatches :: "jsstring \<Rightarrow> jsstring list" where
  "explicitMatches [] = []"
| "explicitMatches (c # cs) =
     (if startsWithSpan (c # cs) then
        (case explicitFrom (drop 3 cs) of
           Some (spanName, rest) \<Rightarrow> spanName # explicitMatches rest
         | None \<Rightarrow> explicitMatches cs)
      else explicitMatches cs)"
  by pat_completeness auto
termination
proof (relation "measure length")
  fix c :: nat and cs x2 spanName rest
  assume "explicitFrom (drop 3 cs) = Some x2" and "(spanName, rest) = x2"
  then have "length rest < length (drop 3 cs)"
    using explicitFrom_length [of "drop 3 cs" spanName rest] by simp
  then show "(rest, c # cs) \<in> measure length" by simp
qed auto

subsection \<open>\<^verbatim>\<open>guessLayer\<close>\<close>

text \<open>
  Lines 141-186. \<^verbatim>\<open>spanIndex\<close> is an integer, \<^verbatim>\<open>-1\<close> when the name does not occur;
  \<^verbatim>\<open>spanIndex + 100\<close> is then still positive, so both bounds of \<^verbatim>\<open>substring\<close> are
  natural numbers.
\<close>

definition guessLayer :: "jsstring \<Rightarrow> jsstring \<Rightarrow> layer" where
  "guessLayer spanName context =
     (let lowerContext = toLowerCase context;
          lowerSpanName = toLowerCase spanName;
          spanIndex = (case indexOf lowerSpanName lowerContext of
                         None \<Rightarrow> - 1 | Some i \<Rightarrow> int i);
          contextWindow = substring lowerContext
            (nat (max 0 (spanIndex - 100)))
            (nat (min (int (length lowerContext)) (spanIndex + 100)))
      in if strIncludes contextWindow (js ''frontend'') \<or>
            strIncludes contextWindow (js ''client'') \<or>
            strIncludes contextWindow (js ''browser'') \<or>
            strIncludes contextWindow (js ''user action'') \<or>
            strIncludes contextWindow (js ''click'') \<or>
            strIncludes contextWindow (js ''submit'')
         then Frontend
         else if strIncludes contextWindow (js ''backend'') \<or>
            strIncludes contextWindow (js ''server'') \<or>
            strIncludes contextWindow (js ''api'') \<or>
            strIncludes contextWindow (js ''database'') \<or>
            strIncludes contextWindow (js ''payment'') \<or>
            strIncludes contextWindow (js ''process'') \<or>
            strIncludes spanName (js ''validate'') \<or>
            strIncludes spanName (js ''process'') \<or>
            strIncludes spanName (js ''fetch'')
         then Backend
         else if takeWhile (\<lambda>c. c \<noteq> 46) spanName \<in>
                   set [js ''db'', js ''http'', js ''payment'', js ''auth'', js ''email'']
         then Backend
         else Backend)"

subsection \<open>\<^verbatim>\<open>extractDescription\<close>\<close>

text \<open>
  Line 197: \<^verbatim>\<open>/`[^`]+`\s*:\s*([^.\n*]+)(?:\.|$|\n)/\<close>. \<open>colonAt\<close> is given the text after an
  opening backtick. The group must be followed by a full stop, a newline or the end of
  the text; a shorter group is followed by a character of its own class, so only the
  longest one can match.
\<close>

definition descChar :: "nat \<Rightarrow> bool" where
  "descChar c \<longleftrightarrow> c \<noteq> 46 \<and> c \<noteq> 10 \<and> c \<noteq> 42"

definition descEnd :: "jsstring \<Rightarrow> bool" where
  "descEnd rest \<longleftrightarrow> (case rest of [] \<Rightarrow> True | c # _ \<Rightarrow> c = 46 \<or> c = 10)"

definition colonAt :: "jsstring \<Rightarrow> jsstring option" where
  "colonAt cs =
     (if takeWhile (\<lambda>c. c \<noteq> BACKTICK) cs = [] then None
      else case dropWhile (\<lambda>c. c \<noteq> BACKTICK) cs of
             [] \<Rightarrow> None
           | _ # r \<Rightarrow>
               (case dropWhile isWhiteSpace r of
                  [] \<Rightarrow> None
                | c # r' \<Rightarrow> if c = COLON then wsCapture descChar descEnd r' else None))"

fun colonMatch :: "jsstring \<Rightarrow> jsstring option" where
  "colonMatch [] = None"
| "colonMatch (c # cs) =
     (if c = BACKTICK then
        (case colonAt cs of Some d \<Rightarrow> Some d | None \<Rightarrow> colonMatch cs)
      else colonMatch cs)"

text \<open>Line 203: \<^verbatim>\<open>/\(([^)]+)\)/\<close>.\<close>

fun parenMatch :: "jsstring \<Rightarrow> jsstring option" where
  "parenMatch [] = None"
| "parenMatch (c # cs) =
     (if c = 40 \<and> takeWhile (\<lambda>x. x \<noteq> 41) cs \<noteq> [] \<and> dropWhile (\<lambda>x. x \<noteq> 41) cs \<noteq> []
      then Some (takeWhile (\<lambda>x. x \<noteq> 41) cs)
      else parenMatch cs)"

text \<open>
  Line 209: \<^verbatim>\<open>/[:...-]\s*([^.\n*]+)/\<close>. The class, as the source file has it, holds the
  colon, the hyphen and the three characters U+201A, U+00C4 and U+00EC.
\<close>

definition descClass :: "nat \<Rightarrow> bool" where
  "descClass c \<longleftrightarrow> c = COLON \<or> c = 8218 \<or> c = 196 \<or> c = 236 \<or> c = 45"

fun descMatch :: "jsstring \<Rightarrow> jsstring option" where
  "descMatch [] = None"
| "descMatch (c # cs) =
     (if descClass c then
        (case wsCapture descChar (\<lambda>_. True) cs of Some d \<Rightarrow> Some d | None \<Rightarrow> descMatch cs)
      else descMatch cs)"

definition extractDescription :: "jsstring \<Rightarrow> jsstring \<Rightarrow> jsstring" where
  "extractDescription spanName text =
     (case indexOf spanName text of
        None \<Rightarrow> []
      | Some spanIndex \<Rightarrow>
          (let afterSpan = substring text spanIndex (spanIndex + 300)
           in case colonMatch afterSpan of
                Some d \<Rightarrow> trim d
              | None \<Rightarrow>
                  (case parenMatch afterSpan of
                     Some d \<Rightarrow> d
                   | None \<Rightarrow>
                       (case descMatch afterSpan of
                          Some d \<Rightarrow> trim d
                        | None \<Rightarrow> []))))"

subsection \<open>\<^verbatim>\<open>extractAttributes\<close>\<close>

text \<open>
  \<^verbatim>\<open>Attributes?:\<close> under the flag \<^verbatim>\<open>i\<close> at the head of the text: the text after the
  colon.
\<close>

definition attributesLabel :: "jsstring \<Rightarrow> jsstring option" where
  "attributesLabel cs =
     (if toLowerCase (take 9 cs) = js ''attribute'' \<and> list_all (\<lambda>c. c < 128) (take 9 cs) then
        (case drop 9 cs of
           [] \<Rightarrow> None
         | c # r \<Rightarrow>
             if c = 115 \<or> c = 83 then
               (case r of [] \<Rightarrow> None | d # r' \<Rightarrow> if d = COLON then Some r' else None)
             else if c = COLON then Some r
             else None)
      else None)"

text \<open>Line 226: \<^verbatim>\<open>/Attributes?:\s*([^\n]+)/i\<close>, the first match.\<close>

fun attributesMatch :: "jsstring \<Rightarrow> jsstring option" where
  "attributesMatch [] = None"
| "attributesMatch (c # cs) =
     (case attributesLabel (c # cs) of
        None \<Rightarrow> attributesMatch cs
      | Some after \<Rightarrow>
          (case wsCapture (\<lambda>x. x \<noteq> NEWLINE) (\<lambda>_. True) after of
             Some t \<Rightarrow> Some t
           | None \<Rightarrow> attributesMatch cs))"

text \<open>Lines 230 and 255: \<^verbatim>\<open>/`([a-z_]+)`/g\<close>, the groups of all matches.\<close>

function backtickTokens :: "jsstring \<Rightarrow> jsstring list" where
  "backtickTokens [] = []"
| "backtickTokens (c # cs) =
     (if c = BACKTICK \<and> takeWhile isAttrChar cs \<noteq> [] \<and>
         take 1 (dropWhile isAttrChar cs) = [BACKTICK]
      then takeWhile isAttrChar cs # backtickTokens (drop 1 (dropWhile isAttrChar cs))
      else backtickTokens cs)"
  by pat_completeness auto
termination
proof (relation "measure length")
  fix c :: nat and cs :: jsstring
  have "length (dropWhile isAttrChar cs) \<le> length cs"
    by (rule length_dropWhile_le)
  then show "(drop 1 (dropWhile isAttrChar cs), c # cs) \<in> measure length"
    by simp
qed auto

text \<open>Line 256: \<^verbatim>\<open>/\*\*([a-z_]+)\*\*/g\<close>, the groups of all matches.\<close>

function boldTokens :: "jsstring \<Rightarrow> jsstring list" where
  "boldTokens [] = []"
| "boldTokens (c # cs) =
     (if c = 42 \<and> take 1 cs = [42] \<and> takeWhile isAttrChar (drop 1 cs) \<noteq> [] \<and>
         take 2 (dropWhile isAttrChar (drop 1 cs)) = [42, 42]
      then takeWhile isAttrChar (drop 1 cs) # boldTokens (drop 2 (dropWhile isAttrChar (drop 1 cs)))
      else boldTokens cs)"
  by pat_completeness auto
termination
proof (relation "measure length")
  fix c :: nat and cs :: jsstring
  have "length (dropWhile isAttrChar (drop 1 cs)) \<le> length (drop 1 cs)"
    by (rule length_dropWhile_le)
  then show "(drop 2 (dropWhile isAttrChar (drop 1 cs)), c # cs) \<in> measure length"
    by simp
qed auto

text \<open>
  Line 240: \<^verbatim>\<open>/[*...-]\s*Attributes?:\s*`([^`]+)`/gi\<close>, the groups of all matches. The
  class, as the source file has it, holds the asterisk, the hyphen and the characters
  U+201A, U+00C4 and U+00A2; under the flag \<^verbatim>\<open>i\<close> it also matches U+00E4.
\<close>

definition bulletClass :: "nat \<Rightarrow> bool" where
  "bulletClass c \<longleftrightarrow> c = 42 \<or> c = 8218 \<or> c = 196 \<or> c = 228 \<or> c = 162 \<or> c = 45"

definition bulletAt :: "jsstring \<Rightarrow> (jsstring \<times> jsstring) option" where
  "bulletAt cs =
     (case attributesLabel (dropWhile isWhiteSpace cs) of
        None \<Rightarrow> None
      | Some after \<Rightarrow>
          (case dropWhile isWhiteSpace after of
             [] \<Rightarrow> None
           | c # r \<Rightarrow>
               if c = BACKTICK \<and> takeWhile (\<lambda>x. x \<noteq> BACKTICK) r \<noteq> [] \<and>
                  dropWhile (\<lambda>x. x \<noteq> BACKTICK) r \<noteq> []
               then Some (takeWhile (\<lambda>x. x \<noteq> BACKTICK) r, drop 1 (dropWhile (\<lambda>x. x \<noteq> BACKTICK) r))
               else None))"

lemma attributesLabel_length:
  "attributesLabel cs = Some after \<Longrightarrow> length after < length cs"
  by (auto simp: attributesLabel_def split: if_splits list.splits)
    (metis drop_Suc_Cons length_Cons length_drop less_Suc_eq diff_less_Suc less_imp_diff_less
      lessI less_trans)+

lemma bulletAt_length:
  assumes "bulletAt cs = Some (attrList, rest)"
  shows "length rest < length cs"
proof -
  from assms obtain after c r where
    a: "attributesLabel (dropWhile isWhiteSpace cs) = Some after" and
    d: "dropWhile isWhiteSpace after = c # r" and
    rest: "rest = drop 1 (dropWhile (\<lambda>x. x \<noteq> BACKTICK) r)"
    by (auto simp: bulletAt_def split: option.splits list.splits if_splits)
  have "length rest \<le> length (dropWhile (\<lambda>x. x \<noteq> BACKTICK) r)"
    unfolding rest by simp
  also have "\<dots> \<le> length r"
    by (rule length_dropWhile_le)
  also have "\<dots> < length (dropWhile isWhiteSpace after)"
    unfolding d by simp
  also have "\<dots> \<le> length after"
    by (rule length_dropWhile_le)
  also have "\<dots> < length (dropWhile isWhiteSpace cs)"
    by (rule attributesLabel_length [OF a])
  also have "\<dots> \<le> length cs"
    by (rule length_dropWhile_le)
  finally show ?thesis .
qed

function bulletMatches :: "jsstring \<Rightarrow> jsstring list" where
  "bulletMatches [] = []"
| "bulletMatches (c # cs) =
     (if bulletClass c then
        (case bulletAt cs of
           Some (attrList, rest) \<Rightarrow> attrList # bulletMatches rest
         | None \<Rightarrow> bulletMatches cs)
      else bulletMatches cs)"
  by pat_completeness auto
termination
  by (relation "measure length") (auto dest: bulletAt_length)

text \<open>
  Line 244: \<^verbatim>\<open>attrList.split(/[,\s]+/)\<close>, without the empty pieces, which the test
  \<^verbatim>\<open>cleaned &&\<close> drops. A piece holds no white space, so \<^verbatim>\<open>trim\<close> leaves it unchanged.
\<close>

definition isSeparator :: "nat \<Rightarrow> bool" where
  "isSeparator c \<longleftrightarrow> c = 44 \<or> isWhiteSpace c"

function splitTokens :: "jsstring \<Rightarrow> jsstring list" where
  "splitTokens s =
     (if dropWhile isSeparator s = [] then []
      else takeWhile (\<lambda>c. \<not> isSeparator c) (dropWhile isSeparator s) #
           splitTokens (dropWhile (\<lambda>c. \<not> isSeparator c) (dropWhile isSeparator s)))"
  by pat_completeness auto
termination
proof (relation "measure length")
  fix s :: jsstring
  assume ne: "dropWhile isSeparator s \<noteq> []"
  then obtain c r where d: "dropWhile isSeparator s = c # r"
    by (cases "dropWhile isSeparator s") auto
  then have "\<not> isSeparator c"
    using hd_dropWhile [of isSeparator s] by auto
  then have "dropWhile (\<lambda>c. \<not> isSeparator c) (c # r) = dropWhile (\<lambda>c. \<not> isSeparator c) r"
    by simp
  moreover have "length (dropWhile (\<lambda>c. \<not> isSeparator c) r) \<le> length r"
    by (rule length_dropWhile_le)
  moreover have "length (c # r) \<le> length s"
    using length_dropWhile_le [of isSeparator s] d by simp
  ultimately show
    "(dropWhile (\<lambda>c. \<not> isSeparator c) (dropWhile isSeparator s), s) \<in> measure length"
    using d by simp
qed auto

declare splitTokens.simps [simp del]

text \<open>
  An assignment \<^verbatim>\<open>attributes[k] = 'Tracks ...'\<close>: a new key is added after the others,
  an old one keeps its place. The key \<^verbatim>\<open>__proto__\<close> names the accessor of
  \<^verbatim>\<open>Object.prototype\<close>, whose setter ignores a string: the object is unchanged.
  \<^verbatim>\<open>attributes[k]\<close> is truthy when \<open>k\<close> is a key (every value is a non-empty string) or
  names an inherited property; of those only \<^verbatim>\<open>constructor\<close> and \<^verbatim>\<open>__proto__\<close> can be
  matched by \<^verbatim>\<open>[a-z_]+\<close>.
\<close>

definition tracks :: "jsstring \<Rightarrow> jsstring" where
  "tracks attrName = js ''Tracks '' @ map (\<lambda>c. if c = 95 then 32 else c) attrName"

definition setAttribute :: "(jsstring \<times> jsstring) list \<Rightarrow> jsstring \<Rightarrow> (jsstring \<times> jsstring) list" where
  "setAttribute attrs attrName =
     (if attrName = js ''__proto__'' then attrs
      else AList.update attrName (tracks attrName) attrs)"

definition attributeTruthy :: "(jsstring \<times> jsstring) list \<Rightarrow> jsstring \<Rightarrow> bool" where
  "attributeTruthy attrs attrName \<longleftrightarrow>
     attrName \<in> fst ` set attrs \<or> attrName = js ''constructor'' \<or> attrName = js ''__proto__''"

definition commonAttributeName :: "jsstring \<Rightarrow> bool" where
  "commonAttributeName attrName \<longleftrightarrow>
     list_ex (strIncludes attrName)
       [js ''id'', js ''name'', js ''price'', js ''quantity'', js ''value'', js ''amount'',
        js ''count'', js ''method'', js ''status'', js ''type'', js ''user'', js ''error'',
        js ''address'', js ''street'', js ''city'', js ''state'', js ''zip'', js ''rate'',
        js ''shipping'', js ''order'', js ''cart'', js ''product'']"

definition labelledStep :: "(jsstring \<times> jsstring) list \<Rightarrow> jsstring \<Rightarrow> (jsstring \<times> jsstring) list" where
  "labelledStep attrs attrName =
     (if strIncludes attrName [46] then attrs else setAttribute attrs attrName)"

definition bulletStep :: "(jsstring \<times> jsstring) list \<Rightarrow> jsstring \<Rightarrow> (jsstring \<times> jsstring) list" where
  "bulletStep attrs attrList =
     foldl (\<lambda>a cleaned. if cleaned \<noteq> [] \<and> \<not> strIncludes cleaned [46]
                         then setAttribute a cleaned else a)
       attrs (splitTokens attrList)"

definition commonStep :: "jsstring \<Rightarrow> (jsstring \<times> jsstring) list \<Rightarrow> jsstring \<Rightarrow> (jsstring \<times> jsstring) list" where
  "commonStep spanName attrs attrName =
     (if strIncludes attrName [46] \<or> attrName = spanName \<or> attributeTruthy attrs attrName
      then attrs
      else if commonAttributeName attrName then setAttribute attrs attrName
      else attrs)"

definition extractAttributes :: "jsstring \<Rightarrow> jsstring \<Rightarrow> (jsstring \<times> jsstring) list" where
  "extractAttributes spanName text =
     (case indexOf spanName text of
        None \<Rightarrow> []
      | Some spanIndex \<Rightarrow>
          (let context = substring text spanIndex (spanIndex + 400);
               labelled = (case attributesMatch context of
                             None \<Rightarrow> []
                           | Some attributesText \<Rightarrow>
                               foldl labelledStep [] (backtickTokens attributesText));
               bulleted = foldl bulletStep labelled (bulletMatches context);
               ticked = foldl (commonStep spanName) bulleted (backtickTokens context)
           in foldl (commonStep spanName) ticked (boldTokens context)))"

subsection \<open>\<^verbatim>\<open>detectPIIKeys\<close>\<close>

text \<open>
  \<^verbatim>\<open>Object.keys\<close> lists the keys that are array indices (canonical decimal numerals
  below \<open>2^32 - 1\<close>) first, in ascending order, and then the other keys in insertion
  order.
\<close>

definition decimalValue :: "jsstring \<Rightarrow> nat" where
  "decimalValue k = foldl (\<lambda>n c. 10 * n + (c - 48)) 0 k"

definition isArrayIndex :: "jsstring \<Rightarrow> bool" where
  "isArrayIndex k \<longleftrightarrow>
     k \<noteq> [] \<and> list_all (\<lambda>c. 48 \<le> c \<and> c \<le> 57) k \<and> (k = [48] \<or> take 1 k \<noteq> [48]) \<and>
     decimalValue k < 4294967295"

definition objectKeys :: "(jsstring \<times> jsstring) list \<Rightarrow> jsstring list" where
  "objectKeys attrs =
     sort_key decimalValue (filter isArrayIndex (map fst attrs)) @
     filter (\<lambda>k. \<not> isArrayIndex k) (map fst attrs)"

definition piiKeywords :: "jsstring list" where
  "piiKeywords =
     [js ''email'', js ''phone'', js ''address'', js ''ssn'', js ''card'', js ''password'',
      js ''token'', js ''ip'', js ''street'', js ''city'', js ''zip'', js ''postal'',
      js ''credit'', js ''cvv'', js ''billing'', js ''shipping_address'',
      js ''billing_address'', js ''name'', js ''firstname'', js ''lastname'']"

definition detectPIIKeys :: "(jsstring \<times> jsstring) list \<Rightarrow> jsstring list" where
  "detectPIIKeys attrs =
     filter (\<lambda>key. list_ex (\<lambda>keyword. strIncludes (toLowerCase key) keyword) piiKeywords)
       (objectKeys attrs)"

subsection \<open>\<^verbatim>\<open>extractSpansFromText\<close>\<close>

definition describe :: "jsstring \<Rightarrow> jsstring \<Rightarrow> jsstring" where
  "describe spanName text =
     (if extractDescription spanName text = []
      then js ''Tracks '' @ spanName @ js '' operation''
      else extractDescription spanName text)"

definition codeBlockSpan :: "jsstring \<Rightarrow> jsstring \<Rightarrow> span_definition" where
  "codeBlockSpan text spanName =
     \<lparr>name = spanName,
      op = takeWhile (\<lambda>c. c \<noteq> 46) spanName,
      layer = guessLayer spanName text,
      description = describe spanName text,
      attributes = extractAttributes spanName text,
      pii_keys = detectPIIKeys (extractAttributes spanName text)\<rparr>"

definition explicitSpan :: "jsstring \<Rightarrow> jsstring \<Rightarrow> span_definition" where
  "explicitSpan text spanName =
     \<lparr>name = spanName,
      op = takeWhile (\<lambda>c. c \<noteq> 46) spanName,
      layer = guessLayer spanName text,
      description = describe spanName text,
      attributes = extractAttributes spanName text,
      pii_keys = []\<rparr>"

text \<open>The first loop (lines 88-112) and one iteration of the second (lines 118-136).\<close>

definition codeBlockSpans :: "jsstring \<Rightarrow> span_definition list" where
  "codeBlockSpans text =
     map (codeBlockSpan text) (filter (\<lambda>spanName. strIncludes spanName [46]) (codeBlockMatches text))"

definition explicitStep :: "jsstring \<Rightarrow> span_definition list \<Rightarrow> jsstring \<Rightarrow> span_definition list" where
  "explicitStep text spans matched =
     (let spanName = toLowerCase matched
      in if \<not> strIncludes spanName [46] then spans
         else if list_ex (\<lambda>s. name s = spanName) spans then spans
         else spans @ [explicitSpan text spanName])"

definition extractSpansFromText :: "jsstring \<Rightarrow> span_definition list" where
  "extractSpansFromText text = foldl (explicitStep text) (codeBlockSpans text) (explicitMatches text)"

section \<open>JSON texts\<close>

text \<open>
  \<^verbatim>\<open>JSON.parse\<close> is not code of the repository. What the claims say about valid JSON and
  about parsing is stated over the grammar of RFC 8259, which \<^verbatim>\<open>JSON.parse\<close> implements:
  a value is given as its syntax tree, white space included, and \<open>render\<close> writes the
  text of a tree. A text is valid JSON when it is \<open>w @ render v @ w'\<close> for a well-formed
  tree \<open>v\<close> and white space \<open>w\<close>, \<open>w'\<close>. The grammar is unambiguous, so the tree of a
  text is what the parser reads.

  A character of a string is written as itself, as a two-character escape, or as
  \<^verbatim>\<open>\u\<close> with four hexadecimal digits.
\<close>

datatype jchar = Plain nat | Escape nat | Unicode nat nat nat nat

datatype jnumber = JNum bool jsstring "jsstring option" "(nat \<times> jsstring \<times> jsstring) option"

datatype jvalue =
    JNull | JTrue | JFalse
  | JNumber jnumber
  | JString "jchar list"
  | JEmptyArray jsstring
  | JArray jelements
  | JEmptyObject jsstring
  | JObject jmembers
and jelements =
    ELast jsstring jvalue jsstring
  | ECons jsstring jvalue jsstring jelements
and jmembers =
    MLast jsstring "jchar list" jsstring jsstring jvalue jsstring
  | MCons jsstring "jchar list" jsstring jsstring jvalue jsstring jmembers

fun renderChar :: "jchar \<Rightarrow> jsstring" where
  "renderChar (Plain c) = [c]"
| "renderChar (Escape e) = [BACKSLASH, e]"
| "renderChar (Unicode a b c d) = [BACKSLASH, 117, a, b, c, d]"

definition renderString :: "jchar list \<Rightarrow> jsstring" where
  "renderString cs = DQUOTE # concat (map renderChar cs) @ [DQUOTE]"

fun renderNumber :: "jnumber \<Rightarrow> jsstring" where
  "renderNumber (JNum negative whole fraction exponent) =
     (if negative then [45] else []) @ whole @
     (case fraction of None \<Rightarrow> [] | Some f \<Rightarrow> 46 # f) @
     (case exponent of None \<Rightarrow> [] | Some (e, sign, ds) \<Rightarrow> e # sign @ ds)"

primrec render :: "jvalue \<Rightarrow> jsstring"
  and renderElements :: "jelements \<Rightarrow> jsstring"
  and renderMembers :: "jmembers \<Rightarrow> jsstring" where
  "render JNull = js ''null''"
| "render JTrue = js ''true''"
| "render JFalse = js ''false''"
| "render (JNumber n) = renderNumber n"
| "render (JString cs) = renderString cs"
| "render (JEmptyArray w) = LBRACKET # w @ [RBRACKET]"
| "render (JArray es) = LBRACKET # renderElements es @ [RBRACKET]"
| "render (JEmptyObject w) = LBRACE # w @ [RBRACE]"
| "render (JObject ms) = LBRACE # renderMembers ms @ [RBRACE]"
| "renderElements (ELast w v w') = w @ render v @ w'"
| "renderElements (ECons w v w' es) = w @ render v @ w' @ 44 # renderElements es"
| "renderMembers (MLast w key w1 w2 v w') =
     w @ renderString key @ w1 @ COLON # w2 @ render v @ w'"
| "renderMembers (MCons w key w1 w2 v w' ms) =
     w @ renderString key @ w1 @ COLON # w2 @ render v @ w' @ 44 # renderMembers ms"

definition isJsonWs :: "jsstring \<Rightarrow> bool" where
  "isJsonWs w \<longleftrightarrow> list_all (\<lambda>c. c = 32 \<or> c = 9 \<or> c = 10 \<or> c = 13) w"

definition isDigit :: "nat \<Rightarrow> bool" where
  "isDigit c \<longleftrightarrow> 48 \<le> c \<and> c \<le> 57"

definition isHex :: "nat \<Rightarrow> bool" where
  "isHex c \<longleftrightarrow> isDigit c \<or> (65 \<le> c \<and> c \<le> 70) \<or> (97 \<le> c \<and> c \<le> 102)"

fun wfChar :: "jchar \<Rightarrow> bool" where
  "wfChar (Plain c) \<longleftrightarrow> 32 \<le> c \<and> c \<noteq> DQUOTE \<and> c \<noteq> BACKSLASH"
| "wfChar (Escape e) \<longleftrightarrow> e \<in> set [DQUOTE, BACKSLASH, 47, 98, 102, 110, 114, 116]"
| "wfChar (Unicode a b c d) \<longleftrightarrow> isHex a \<and> isHex b \<and> isHex c \<and> isHex d"

definition isDigits :: "jsstring \<Rightarrow> bool" where
  "isDigits ds \<longleftrightarrow> ds \<noteq> [] \<and> list_all isDigit ds"

fun wfNumber :: "jnumber \<Rightarrow> bool" where
  "wfNumber (JNum negative whole fraction exponent) \<longleftrightarrow>
     isDigits whole \<and> (whole = [48] \<or> take 1 whole \<noteq> [48]) \<and>
     (case fraction of None \<Rightarrow> True | Some f \<Rightarrow> isDigits f) \<and>
     (case exponent of
        None \<Rightarrow> True
      | Some (e, sign, ds) \<Rightarrow>
          (e = 101 \<or> e = 69) \<and> (sign = [] \<or> sign = [43] \<or> sign = [45]) \<and> isDigits ds)"

primrec wfValue :: "jvalue \<Rightarrow> bool"
  and wfElements :: "jelements \<Rightarrow> bool"
  and wfMembers :: "jmembers \<Rightarrow> bool" where
  "wfValue JNull \<longleftrightarrow> True"
| "wfValue JTrue \<longleftrightarrow> True"
| "wfValue JFalse \<longleftrightarrow> True"
| "wfValue (JNumber n) \<longleftrightarrow> wfNumber n"
| "wfValue (JString cs) \<longleftrightarrow> list_all wfChar cs"
| "wfValue (JEmptyArray w) \<longleftrightarrow> isJsonWs w"
| "wfValue (JArray es) \<longleftrightarrow> wfElements es"
| "wfValue (JEmptyObject w) \<longleftrightarrow> isJsonWs w"
| "wfValue (JObject ms) \<longleftrightarrow> wfMembers ms"
| "wfElements (ELast w v w') \<longleftrightarrow> isJsonWs w \<and> wfValue v \<and> isJsonWs w'"
| "wfElements (ECons w v w' es) \<longleftrightarrow> isJsonWs w \<and> wfValue v \<and> isJsonWs w' \<and> wfElements es"
| "wfMembers (MLast w key w1 w2 v w') \<longleftrightarrow>
     isJsonWs w \<and> list_all wfChar key \<and> isJsonWs w1 \<and> isJsonWs w2 \<and> wfValue v \<and> isJsonWs w'"
| "wfMembers (MCons w key w1 w2 v w' ms) \<longleftrightarrow>
     isJsonWs w \<and> list_all wfChar key \<and> isJsonWs w1 \<and> isJsonWs w2 \<and> wfValue v \<and> isJsonWs w' \<and>
     wfMembers ms"

text \<open>An object or an array, the two kinds of value the extractor looks for.\<close>

fun isContainer :: "jvalue \<Rightarrow> bool" where
  "isContainer (JEmptyArray w) = True"
| "isContainer (JArray es) = True"
| "isContainer (JEmptyObject w) = True"
| "isContainer (JObject ms) = True"
| "isContainer v = False"

text \<open>
  The value of a string: what its characters stand for. \<open>hexValue\<close> reads one
  hexadecimal digit.
\<close>

definition hexValue :: "nat \<Rightarrow> nat" where
  "hexValue c = (if isDigit c then c - 48 else if 97 \<le> c then c - 87 else c - 55)"

fun charValue :: "jchar \<Rightarrow> nat" where
  "charValue (Plain c) = c"
| "charValue (Escape e) =
     (if e = 98 then 8 else if e = 102 then 12 else if e = 110 then 10
      else if e = 114 then 13 else if e = 116 then 9 else e)"
| "charValue (Unicode a b c d) =
     4096 * hexValue a + 256 * hexValue b + 16 * hexValue c + hexValue d"

definition stringValue :: "jchar list \<Rightarrow> jsstring" where
  "stringValue cs = map charValue cs"

text \<open>
  The string value of the member \<open>k\<close> of an object, as \<^verbatim>\<open>JSON.parse(text)[k]\<close> gives it:
  of several members with the same key the last one counts.
\<close>

fun memberList :: "jmembers \<Rightarrow> (jsstring \<times> jvalue) list" where
  "memberList (MLast w key w1 w2 v w') = [(stringValue key, v)]"
| "memberList (MCons w key w1 w2 v w' ms) = (stringValue key, v) # memberList ms"

definition stringMember :: "jvalue \<Rightarrow> jsstring \<Rightarrow> jsstring option" where
  "stringMember v k =
     (case v of
        JObject ms \<Rightarrow>
          (case map_of (rev (memberList ms)) k of
             Some (JString cs) \<Rightarrow> Some (stringValue cs)
           | _ \<Rightarrow> None)
      | _ \<Rightarrow> None)"

text \<open>
  The pattern of line 1053 matches somewhere in the text: some colon is followed, after
  any white space, by a backtick that has a later backtick.
\<close>

fun hasBacktickValue :: "jsstring \<Rightarrow> bool" where
  "hasBacktickValue [] = False"
| "hasBacktickValue (c # cs) = ((c = COLON \<and> backtickValue cs \<noteq> None) \<or> hasBacktickValue cs)"

text \<open>
  The inside of a string literal as the scanning loops read it: characters other than
  the double quote, where a backslash takes the next character with it.
\<close>

fun stringBody :: "jsstring \<Rightarrow> bool" where
  "stringBody [] = True"
| "stringBody [c] = (c \<noteq> BACKSLASH \<and> c \<noteq> DQUOTE)"
| "stringBody (c # d # cs) =
     (if c = BACKSLASH then stringBody cs else c \<noteq> DQUOTE \<and> stringBody (d # cs))"

text \<open>
  Replies whose \<^verbatim>\<open>code\<close> member is written between backticks. \<open>codeReply\<close> is the text of
  an object that is valid JSON but for that value: optional members before, the key
  \<^verbatim>\<open>"code"\<close>, a colon, the interior between backticks, optional members after.
  \<open>codeTree\<close> is the object of the same members whose \<^verbatim>\<open>code\<close> value is the string
  literal of the interior, each character written as \<open>escapeItem\<close> says.
\<close>

definition escapeItem :: "nat \<Rightarrow> jchar" where
  "escapeItem c =
     (if c = DQUOTE then Escape DQUOTE
      else if c = BACKSLASH then Escape BACKSLASH
      else if c = 8 then Escape 98
      else if c = 12 then Escape 102
      else if c = 10 then Escape 110
      else if c = 13 then Escape 114
      else if c = 9 then Escape 116
      else if c \<le> 31 \<or> (127 \<le> c \<and> c \<le> 159)
        then Unicode 48 48 (hexDigit (c div 16)) (hexDigit (c mod 16))
      else Plain c)"

primrec appendMembers :: "jmembers \<Rightarrow> jmembers \<Rightarrow> jmembers" where
  "appendMembers (MLast w key w1 w2 v w') ms = MCons w key w1 w2 v w' ms"
| "appendMembers (MCons w key w1 w2 v w' ms') ms = MCons w key w1 w2 v w' (appendMembers ms' ms)"

definition codeKey :: "jchar list" where
  "codeKey = map Plain (js ''code'')"

definition codeTree ::
  "jmembers option \<Rightarrow> jsstring \<Rightarrow> jsstring \<Rightarrow> jsstring \<Rightarrow> jsstring \<Rightarrow> jmembers option \<Rightarrow> jvalue" where
  "codeTree before w1 w2 interior w4 after =
     (let member = (case after of
                      None \<Rightarrow> MLast w1 codeKey w2 [32] (JString (map escapeItem interior)) w4
                    | Some a \<Rightarrow> MCons w1 codeKey w2 [32] (JString (map escapeItem interior)) w4 a)
      in JObject (case before of None \<Rightarrow> member | Some b \<Rightarrow> appendMembers b member))"

definition codeReply ::
  "jmembers option \<Rightarrow> jsstring \<Rightarrow> jsstring \<Rightarrow> jsstring \<Rightarrow> jsstring \<Rightarrow> jsstring \<Rightarrow> jmembers option \<Rightarrow>
   jsstring" where
  "codeReply before w1 w2 w3 interior w4 after =
     LBRACE # (case before of None \<Rightarrow> [] | Some b \<Rightarrow> renderMembers b @ [44]) @
     w1 @ renderString codeKey @ w2 @ COLON # w3 @ BACKTICK # interior @ BACKTICK # w4 @
     (case after of None \<Rightarrow> [] | Some a \<Rightarrow> 44 # renderMembers a) @ [RBRACE]"

definition membersValid :: "jmembers option \<Rightarrow> bool" where
  "membersValid ms \<longleftrightarrow> (case ms of None \<Rightarrow> True | Some m \<Rightarrow> wfMembers m)"

definition membersText :: "jmembers option \<Rightarrow> jsstring" where
  "membersText ms = (case ms of None \<Rightarrow> [] | Some m \<Rightarrow> renderMembers m)"

definition memberKeys :: "jmembers option \<Rightarrow> jsstring list" where
  "memberKeys ms = (case ms of None \<Rightarrow> [] | Some m \<Rightarrow> map fst (memberList m))"

text \<open>
  The pattern of line 1053 starts to match somewhere in the text: some colon is
  followed, after any white space, by a backtick (with or without a later one).
\<close>

fun opensBacktick :: "jsstring \<Rightarrow> bool" where
  "opensBacktick [] = False"
| "opensBacktick (c # cs) =
     ((c = COLON \<and> (case dropWhile isWhiteSpace cs of [] \<Rightarrow> False | d # r \<Rightarrow> d = BACKTICK)) \<or>
      opensBacktick cs)"

text \<open>
  The characters that the grammar allows outside string literals: white space, the six
  structural characters, and the characters of numbers and of the three literal names.
\<close>

definition jsonOutsideChar :: "nat \<Rightarrow> bool" where
  "jsonOutsideChar c \<longleftrightarrow>
     c \<in> set [32, 9, 10, 13] \<or> c \<in> set (js ''{}[],:'') \<or> isDigit c \<or>
     c \<in> set (js ''-+.eE'') \<or> c \<in> set (js ''nulltruefalse'')"

text \<open>
  The interior of the specification's example, \<^verbatim>\<open>const x = "a";\<close>, a newline and
  \<^verbatim>\<open> return x;\<close>, and a member \<^verbatim>\<open>"note": "see: `x`"\<close>.
\<close>

definition codeInterior :: jsstring where
  \<open>codeInterior = js ''const x = "a";'' @ NEWLINE # js '' return x;''\<close>

definition noteMember :: jmembers where
  "noteMember = MLast [] (map Plain (js ''note'')) [] [32] (JString (map Plain (js ''see: `x`''))) []"

section \<open>Properties of the response extractor\<close>

lemmas eval_defs =
  extractJsonFromResponse_def cleanedText_def stripFences_def trim_def startsWith_def
  endsWith_def js_def isWhiteSpace_def backtickValue_def jsonStartIndex_def substring_def
  jsonEscape_def inEscapeClass_def escapeChar_def unicodeEscape_def hexDigit_def Let_def

lemma scanJsonEnd_Cons:
  "scanJsonEnd i ob ok s e (c # cs) =
     (if closesNesting (ob, ok, s, e) c then Some i
      else case scanStep (ob, ok, s, e) c of (ob', ok', s', e') \<Rightarrow> scanJsonEnd (Suc i) ob' ok' s' e' cs)"
  by (auto simp: closesNesting_def scanStep_def Let_def)

lemma scanJsonEnd_None_iff:
  "scanJsonEnd i ob ok s e cs = None \<longleftrightarrow>
     (\<forall>n<length cs. \<not> closesNesting (foldl scanStep (ob, ok, s, e) (take n cs)) (cs ! n))"
proof (induction cs arbitrary: i ob ok s e)
  case Nil
  show ?case by simp
next
  case (Cons c cs)
  obtain ob' ok' s' e' where st: "scanStep (ob, ok, s, e) c = (ob', ok', s', e')"
    by (cases "scanStep (ob, ok, s, e) c") auto
  show ?case
    unfolding scanJsonEnd_Cons
    by (simp add: st Cons.IH All_less_Suc2 del: scanJsonEnd.simps)
qed

lemma scanJsonEnd_Some_D:
  "scanJsonEnd i ob ok s e cs = Some k \<Longrightarrow>
     \<exists>n<length cs. k = i + n \<and>
        closesNesting (foldl scanStep (ob, ok, s, e) (take n cs)) (cs ! n) \<and>
        (\<forall>m<n. \<not> closesNesting (foldl scanStep (ob, ok, s, e) (take m cs)) (cs ! m))"
proof (induction cs arbitrary: i ob ok s e)
  case Nil
  then show ?case by simp
next
  case (Cons c cs)
  obtain ob' ok' s' e' where st: "scanStep (ob, ok, s, e) c = (ob', ok', s', e')"
    by (cases "scanStep (ob, ok, s, e) c") auto
  show ?case
  proof (cases "closesNesting (ob, ok, s, e) c")
    case True
    with Cons.prems have "k = i" by (simp add: scanJsonEnd_Cons del: scanJsonEnd.simps)
    with True show ?thesis by (intro exI [of _ 0]) simp
  next
    case False
    with Cons.prems st have "scanJsonEnd (Suc i) ob' ok' s' e' cs = Some k"
      by (simp add: scanJsonEnd_Cons del: scanJsonEnd.simps)
    from Cons.IH [OF this] obtain n where n: "n < length cs" "k = Suc i + n"
      "closesNesting (foldl scanStep (ob', ok', s', e') (take n cs)) (cs ! n)"
      "\<forall>m<n. \<not> closesNesting (foldl scanStep (ob', ok', s', e') (take m cs)) (cs ! m)"
      by blast
    show ?thesis
      using n False st by (intro exI [of _ "Suc n"]) (simp add: All_less_Suc2)
  qed
qed

lemma jsonStartIndex_eq:
  "jsonStartIndex t =
     (if LBRACE \<in> set t \<or> LBRACKET \<in> set t
      then Some (length (takeWhile (\<lambda>c. c \<noteq> LBRACE \<and> c \<noteq> LBRACKET) t)) else None)"
proof (induction t)
  case Nil
  show ?case by (simp add: jsonStartIndex_def)
next
  case (Cons c t)
  then show ?case
    by (auto simp: jsonStartIndex_def split: option.splits if_splits)
qed

lemma drop_length_takeWhile: "drop (length (takeWhile P xs)) xs = dropWhile P xs"
  by (induction xs) auto

lemma substring_take_drop:
  "a + n < length s \<Longrightarrow> substring s a (a + n + 1) = take (Suc n) (drop a s)"
  by (simp add: substring_def Let_def min_def max_def)

lemma extractJson_outcome:
  "extractJsonFromResponse raw =
     (let t = cleanedText raw; u = dropWhile (\<lambda>c. c \<noteq> LBRACE \<and> c \<noteq> LBRACKET) t in
      if LBRACE \<notin> set t \<and> LBRACKET \<notin> set t then Inl NoJsonFound
      else if \<forall>n. \<not> breaksAt u n then Inl IncompleteJson
      else Inr (take (Suc (LEAST n. breaksAt u n)) u))"
proof -
  define t where "t = cleanedText raw"
  define P where "P = (\<lambda>c::nat. c \<noteq> LBRACE \<and> c \<noteq> LBRACKET)"
  define u where "u = dropWhile P t"
  define a where "a = length (takeWhile P t)"
  have du: "drop a t = u"
    by (simp add: a_def u_def drop_length_takeWhile)
  show ?thesis
  proof (cases "LBRACE \<in> set t \<or> LBRACKET \<in> set t")
    case False
    then show ?thesis
      by (simp add: extractJsonFromResponse_def jsonStartIndex_eq t_def [symmetric])
  next
    case True
    then have st: "jsonStartIndex t = Some a"
      by (simp add: jsonStartIndex_eq a_def P_def)
    show ?thesis
    proof (cases "scanJsonEnd a 0 0 False False u")
      case None
      then have nb: "\<forall>n. \<not> breaksAt u n"
        by (auto simp: scanJsonEnd_None_iff breaksAt_def)
      from None have "extractJsonFromResponse raw = Inl IncompleteJson"
        by (simp add: extractJsonFromResponse_def t_def [symmetric] st du)
      with True nb show ?thesis
        by (simp add: t_def [symmetric] Let_def P_def [symmetric] u_def [symmetric])
    next
      case (Some k)
      from scanJsonEnd_Some_D [OF Some] obtain n where n: "n < length u" "k = a + n"
        "closesNesting (foldl scanStep (0, 0, False, False) (take n u)) (u ! n)"
        "\<forall>m<n. \<not> closesNesting (foldl scanStep (0, 0, False, False) (take m u)) (u ! m)"
        by blast
      have bal: "breaksAt u n" and first: "\<forall>m<n. \<not> breaksAt u m"
        using n by (auto simp: breaksAt_def)
      then have least: "(LEAST n. breaksAt u n) = n"
        by (intro Least_equality) (auto simp: not_less [symmetric])
      have "a + n < length t"
        using n(1) du [symmetric] by simp
      then have sub: "substring t a (Suc k) = take (Suc n) u"
        using substring_take_drop [of a n t] n(2) du by simp
      have "extractJsonFromResponse raw = Inr (take (Suc n) u)"
        using Some by (simp add: extractJsonFromResponse_def t_def [symmetric] st du sub)
      with True bal show ?thesis
        by (auto simp: t_def [symmetric] Let_def P_def [symmetric] u_def [symmetric] least)
    qed
  qed
qed

lemma outsideStrings_append:
  "outsideStrings st (p @ q) = outsideStrings st p @ outsideStrings (foldl readStep st p) q"
  by (induction p arbitrary: st) auto

lemma readStep_reachable: "st \<noteq> (False, True) \<Longrightarrow> readStep st c \<noteq> (False, True)"
  by (auto simp: readStep_def split: prod.splits if_splits)

lemma read_reachable: "st \<noteq> (False, True) \<Longrightarrow> foldl readStep st p \<noteq> (False, True)"
  by (induction p arbitrary: st) (simp_all add: readStep_reachable)

lemma readStep_pair:
  "readStep (s, e) c =
     (if e then (s, False) else if s \<and> c = BACKSLASH then (s, True)
      else if c = DQUOTE then (\<not> s, False) else (s, False))"
  by (simp add: readStep_def)

lemma scanStep_tuple:
  "scanStep (ob, ok, s, e) c =
     (if e then (ob, ok, s, False)
      else if c = BACKSLASH then (ob, ok, s, True)
      else if c = DQUOTE then (ob, ok, \<not> s, False)
      else if s then (ob, ok, s, False)
      else if c = LBRACE then (ob + 1, ok, s, False)
      else if c = RBRACE then (ob - 1, ok, s, False)
      else if c = LBRACKET then (ob, ok + 1, s, False)
      else if c = RBRACKET then (ob, ok - 1, s, False)
      else (ob, ok, s, False))"
  by (simp add: scanStep_def)

lemma noStray_prefix: "noStrayBackslash (p @ q) \<Longrightarrow> noStrayBackslash p"
  by (simp add: noStrayBackslash_def outsideStrings_append)

lemma noStray_take: "noStrayBackslash u \<Longrightarrow> noStrayBackslash (take k u)"
  using noStray_prefix [of "take k u" "drop k u"] by simp

lemma scan_reads_outside:
  assumes "noStrayBackslash p"
  shows "foldl scanStep (0, 0, False, False) p =
    (int (count_list (outsideStrings (False, False) p) LBRACE) -
       int (count_list (outsideStrings (False, False) p) RBRACE),
     int (count_list (outsideStrings (False, False) p) LBRACKET) -
       int (count_list (outsideStrings (False, False) p) RBRACKET),
     fst (foldl readStep (False, False) p), snd (foldl readStep (False, False) p))"
  using assms
proof (induction p rule: rev_induct)
  case Nil
  show ?case by simp
next
  case (snoc c p)
  obtain s e where st: "foldl readStep (False, False) p = (s, e)"
    by (cases "foldl readStep (False, False) p") auto
  have reach: "(s, e) \<noteq> (False, True)"
    using read_reachable [of "(False, False)" p] st by simp
  from snoc.prems have p: "noStrayBackslash p"
    by (rule noStray_prefix)
  from snoc.prems have stray: "s \<or> e \<or> c \<noteq> BACKSLASH"
    by (auto simp: noStrayBackslash_def outsideStrings_append st)
  show ?case
    using reach stray
    by (auto simp: snoc.IH [OF p] outsideStrings_append st scanStep_tuple readStep_pair)
qed

lemma breaks_iff_balanced:
  assumes n: "n < length u" and stray: "noStrayBackslash (take (Suc n) u)"
  shows "breaksAt u n \<longleftrightarrow> nestingBalancedAt u n"
proof -
  define p where "p = take n u"
  define c where "c = u ! n"
  have t: "take (Suc n) u = p @ [c]"
    using n by (simp add: p_def c_def take_Suc_conv_app_nth)
  obtain s e where st: "foldl readStep (False, False) p = (s, e)"
    by (cases "foldl readStep (False, False) p") auto
  have sp: "noStrayBackslash p"
    using stray unfolding t by (rule noStray_prefix)
  note before = scan_reads_outside [OF sp, unfolded st fst_conv snd_conv]
  note after = scan_reads_outside [OF stray, unfolded t, simplified, unfolded st fst_conv snd_conv]
  have "closesNesting (foldl scanStep (0, 0, False, False) p) c \<longleftrightarrow>
      \<not> e \<and> \<not> s \<and> (c = RBRACE \<or> c = RBRACKET) \<and>
      foldl scanStep (0, 0, False, False) (p @ [c]) = (0, 0, False, False)"
    unfolding before by (simp add: closesNesting_def before)
  also have "\<dots> \<longleftrightarrow> (c = RBRACE \<or> c = RBRACKET) \<and> (s, e) = (False, False) \<and>
      (let outside = outsideStrings (False, False) (p @ [c])
       in count_list outside LBRACE = count_list outside RBRACE \<and>
          count_list outside LBRACKET = count_list outside RBRACKET)"
    using after by (auto simp: readStep_pair Let_def)
  finally show ?thesis
    using n by (simp add: breaksAt_def nestingBalancedAt_def t st p_def [symmetric] c_def [symmetric])
qed

lemma spec_scan_ends:
  assumes "0 < k \<longrightarrow> pos" "n < length cs" "cs ! n = RBRACE \<or> cs ! n = RBRACKET"
    and "foldl readStep (s, e) (take n cs) = (False, False)"
    and "k + int (count_list (outsideStrings (s, e) (take (Suc n) cs)) LBRACE) +
           int (count_list (outsideStrings (s, e) (take (Suc n) cs)) LBRACKET) =
         int (count_list (outsideStrings (s, e) (take (Suc n) cs)) RBRACE) +
           int (count_list (outsideStrings (s, e) (take (Suc n) cs)) RBRACKET)"
  shows "\<exists>m\<le>n. specScanEnd i k pos s e cs = Some (i + m)"
  using assms
proof (induction cs arbitrary: i k pos s e n)
  case Nil
  then show ?case by simp
next
  case (Cons c cs)
  show ?case
  proof (cases n)
    case 0
    with Cons.prems have "s = False" "e = False" "c = RBRACE \<or> c = RBRACKET" "k = 1"
      by (auto simp: readStep_pair split: if_splits)
    with Cons.prems(1) have "specScanEnd i k pos s e (c # cs) = Some (i + 0)"
      by auto
    with 0 show ?thesis by blast
  next
    case (Suc n')
    obtain s' e' where st: "readStep (s, e) c = (s', e')"
      by (cases "readStep (s, e) c") auto
    define k' where "k' = (if (s, e) = (False, False) \<and> c \<noteq> DQUOTE
      then (if c = LBRACE \<or> c = LBRACKET then k + 1
            else if c = RBRACE \<or> c = RBRACKET then k - 1 else k) else k)"
    define pos' where "pos' = (pos \<or> 0 < k')"
    have step: "specScanEnd i k pos s e (c # cs) =
        (if (s, e) = (False, False) \<and> c \<noteq> DQUOTE \<and> k' = 0 \<and> pos then Some i
         else specScanEnd (i + 1) k' pos' s' e' cs)"
      using st Cons.prems(1) by (auto simp: readStep_pair k'_def pos'_def Let_def split: if_splits)
    show ?thesis
    proof (cases "(s, e) = (False, False) \<and> c \<noteq> DQUOTE \<and> k' = 0 \<and> pos")
      case True
      with step have "specScanEnd i k pos s e (c # cs) = Some (i + 0)"
        by (simp del: specScanEnd.simps)
      then show ?thesis by blast
    next
      case False
      have 1: "0 < k' \<longrightarrow> pos'"
        by (simp add: pos'_def)
      have 2: "n' < length cs" "cs ! n' = RBRACE \<or> cs ! n' = RBRACKET"
        using Cons.prems(2,3) Suc by simp_all
      have 3: "foldl readStep (s', e') (take n' cs) = (False, False)"
        using Cons.prems(4) Suc st by simp
      have 4: "k' + int (count_list (outsideStrings (s', e') (take (Suc n') cs)) LBRACE) +
           int (count_list (outsideStrings (s', e') (take (Suc n') cs)) LBRACKET) =
         int (count_list (outsideStrings (s', e') (take (Suc n') cs)) RBRACE) +
           int (count_list (outsideStrings (s', e') (take (Suc n') cs)) RBRACKET)"
        using Cons.prems(5) Suc st by (auto simp: k'_def split: if_splits)
      from Cons.IH [OF 1 2 3 4, of "i + 1"] obtain m where "m \<le> n'"
        "specScanEnd (i + 1) k' pos' s' e' cs = Some (i + 1 + m)"
        by blast
      with step False Suc have "Suc m \<le> n" "specScanEnd i k pos s e (c # cs) = Some (i + Suc m)"
        by (simp_all del: specScanEnd.simps)
      then show ?thesis by blast
    qed
  qed
qed

lemma balanced_spec_scan:
  assumes "nestingBalancedAt u n"
  shows "\<exists>m\<le>n. specScanEnd 0 0 False False False u = Some m"
proof -
  from assms have "n < length u" "u ! n = RBRACE \<or> u ! n = RBRACKET"
    "foldl readStep (False, False) (take n u) = (False, False)"
    "count_list (outsideStrings (False, False) (take (Suc n) u)) LBRACE =
       count_list (outsideStrings (False, False) (take (Suc n) u)) RBRACE"
    "count_list (outsideStrings (False, False) (take (Suc n) u)) LBRACKET =
       count_list (outsideStrings (False, False) (take (Suc n) u)) RBRACKET"
    by (simp_all add: nestingBalancedAt_def Let_def)
  from spec_scan_ends [of 0 False n u False False 0, OF _ this(1,2,3)] this(4,5)
  show ?thesis by simp
qed

text \<open>
  C1 as amended. With \<open>t\<close> the cleaned and repaired text and \<open>u\<close> its part from the first
  \<^verbatim>\<open>{\<close> or \<^verbatim>\<open>[\<close> on: \<^verbatim>\<open>extractJsonFromResponse\<close> throws "No JSON object or array found"
  iff \<open>t\<close> holds neither token. When no backslash of \<open>u\<close> is outside a string literal, it
  throws "Incomplete JSON" iff \<open>t\<close> holds a token and \<open>u\<close> has no closing brace or
  bracket outside a string literal at which the braces and the brackets are each
  balanced. It returns the part of \<open>u\<close> up to index \<open>n\<close>, when no backslash of that part
  is outside a string literal, iff \<open>n\<close> is the first index of this kind. Whatever it
  returns is a contiguous part of \<open>t\<close> that starts where \<open>u\<close> starts. The condition is
  stricter than that of the specification: where the braces and the brackets are each
  balanced, the scan of the specification, with its one counter, has ended there or
  before.
\<close>

theorem extractJson_fails_exactly:
  "let t = cleanedText raw; u = dropWhile (\<lambda>c. c \<noteq> LBRACE \<and> c \<noteq> LBRACKET) t in
     (extractJsonFromResponse raw = Inl NoJsonFound \<longleftrightarrow> LBRACE \<notin> set t \<and> LBRACKET \<notin> set t) \<and>
     (noStrayBackslash u \<longrightarrow>
        (extractJsonFromResponse raw = Inl IncompleteJson \<longleftrightarrow>
           (LBRACE \<in> set t \<or> LBRACKET \<in> set t) \<and> (\<forall>n. \<not> nestingBalancedAt u n))) \<and>
     (\<forall>n<length u. noStrayBackslash (take (Suc n) u) \<longrightarrow>
        (extractJsonFromResponse raw = Inr (take (Suc n) u) \<longleftrightarrow>
           nestingBalancedAt u n \<and> (\<forall>m<n. \<not> nestingBalancedAt u m))) \<and>
     (\<forall>s. extractJsonFromResponse raw = Inr s \<longrightarrow>
        sublist s t \<and> (\<exists>n<length u. s = take (Suc n) u)) \<and>
     (\<forall>n. nestingBalancedAt u n \<longrightarrow> (\<exists>m\<le>n. specScanEnd 0 0 False False False u = Some m))"
proof -
  define t where "t = cleanedText raw"
  define u where "u = dropWhile (\<lambda>c. c \<noteq> LBRACE \<and> c \<noteq> LBRACKET) t"
  note outcome = extractJson_outcome [of raw, unfolded Let_def, folded t_def, folded u_def]
  have bound: "n < length u" if "breaksAt u n" for n
    using that by (simp add: breaksAt_def)
  have token: "LBRACE \<in> set t \<or> LBRACKET \<in> set t" if "u \<noteq> []"
  proof -
    from that have "hd u \<in> set t"
      unfolding u_def by (metis hd_in_set set_dropWhileD)
    moreover from that have "hd u = LBRACE \<or> hd u = LBRACKET"
      using hd_dropWhile [of "\<lambda>c. c \<noteq> LBRACE \<and> c \<noteq> LBRACKET" t] by (auto simp: u_def)
    ultimately show ?thesis by auto
  qed
  have found: "extractJsonFromResponse raw = Inr (take (Suc n) u)"
    if "breaksAt u n" "\<forall>m<n. \<not> breaksAt u m" for n
  proof -
    from that have "(LEAST k. breaksAt u k) = n"
      by (intro Least_equality) (auto simp: not_less [symmetric])
    moreover from that(1) have "u \<noteq> []"
      using bound by fastforce
    ultimately show ?thesis
      using outcome token that(1) by auto
  qed
  have returned: "\<exists>n. breaksAt u n \<and> (\<forall>m<n. \<not> breaksAt u m) \<and> s = take (Suc n) u"
    if "extractJsonFromResponse raw = Inr s" for s
  proof -
    from that outcome have ex: "\<exists>n. breaksAt u n" and s: "s = take (Suc (LEAST n. breaksAt u n)) u"
      by (auto split: if_splits)
    from ex have "breaksAt u (LEAST n. breaksAt u n)"
      by (rule LeastI_ex)
    moreover have "\<forall>m<(LEAST n. breaksAt u n). \<not> breaksAt u m"
      using not_less_Least by blast
    ultimately show ?thesis
      using s by blast
  qed
  have 1: "extractJsonFromResponse raw = Inl NoJsonFound \<longleftrightarrow> LBRACE \<notin> set t \<and> LBRACKET \<notin> set t"
    using outcome by auto
  have 2: "extractJsonFromResponse raw = Inl IncompleteJson \<longleftrightarrow>
      (LBRACE \<in> set t \<or> LBRACKET \<in> set t) \<and> (\<forall>n. \<not> nestingBalancedAt u n)"
    if stray: "noStrayBackslash u"
  proof -
    have "breaksAt u n \<longleftrightarrow> nestingBalancedAt u n" for n
    proof (cases "n < length u")
      case True
      then show ?thesis
        by (intro breaks_iff_balanced noStray_take [OF stray])
    next
      case False
      then show ?thesis
        by (simp add: breaksAt_def nestingBalancedAt_def)
    qed
    then show ?thesis
      using outcome by auto
  qed
  have 3: "extractJsonFromResponse raw = Inr (take (Suc n) u) \<longleftrightarrow>
      nestingBalancedAt u n \<and> (\<forall>m<n. \<not> nestingBalancedAt u m)"
    if n: "n < length u" and stray: "noStrayBackslash (take (Suc n) u)" for n
  proof -
    have eq: "breaksAt u m \<longleftrightarrow> nestingBalancedAt u m" if "m \<le> n" for m
    proof -
      from that have "take (Suc m) u = take (Suc m) (take (Suc n) u)"
        by (simp add: min_def)
      then have "noStrayBackslash (take (Suc m) u)"
        using noStray_take [OF stray, of "Suc m"] by simp
      moreover from that n have "m < length u" by simp
      ultimately show ?thesis
        by (intro breaks_iff_balanced)
    qed
    show ?thesis
    proof
      assume "extractJsonFromResponse raw = Inr (take (Suc n) u)"
      from returned [OF this] obtain k where k: "breaksAt u k" "\<forall>m<k. \<not> breaksAt u m"
        "take (Suc n) u = take (Suc k) u"
        by blast
      from k(1) have "k < length u" by (rule bound)
      with n k(3) have "k = n"
        by (metis Suc_leI length_take min.absorb2 nat.inject)
      with k eq show "nestingBalancedAt u n \<and> (\<forall>m<n. \<not> nestingBalancedAt u m)"
        by auto
    next
      assume "nestingBalancedAt u n \<and> (\<forall>m<n. \<not> nestingBalancedAt u m)"
      with eq have "breaksAt u n" "\<forall>m<n. \<not> breaksAt u m"
        by auto
      then show "extractJsonFromResponse raw = Inr (take (Suc n) u)"
        by (rule found)
    qed
  qed
  have 4: "sublist s t \<and> (\<exists>n<length u. s = take (Suc n) u)"
    if "extractJsonFromResponse raw = Inr s" for s
  proof -
    from returned [OF that] obtain n where n: "breaksAt u n" "s = take (Suc n) u"
      by blast
    have "t = takeWhile (\<lambda>c. c \<noteq> LBRACE \<and> c \<noteq> LBRACKET) t @ take (Suc n) u @ drop (Suc n) u"
      by (simp add: u_def)
    then have "sublist (take (Suc n) u) t"
      unfolding sublist_def by blast
    with n bound show ?thesis by blast
  qed
  have 5: "\<exists>m\<le>n. specScanEnd 0 0 False False False u = Some m" if "nestingBalancedAt u n" for n
    using that by (rule balanced_spec_scan)
  from 1 2 3 4 5 show ?thesis
    unfolding Let_def t_def [symmetric] u_def [symmetric] by blast
qed


lemmas read_defs = noStrayBackslash_def nestingBalancedAt_def readStep_pair js_def Let_def

theorem extractJson_fails_exactly_witness:
  \<open>extractJsonFromResponse (js ''just prose, no JSON here'') = Inl NoJsonFound \<and>
   LBRACE \<notin> set (js ''just prose, no JSON here'') \<and>
   noStrayBackslash (js ''{"a": "b"'') \<and>
   extractJsonFromResponse (js ''{"a": "b"'') = Inl IncompleteJson \<and>
   (\<forall>n. \<not> nestingBalancedAt (js ''{"a": "b"'') n) \<and>
   noStrayBackslash (js ''{"a": [1, 2]}'') \<and>
   extractJsonFromResponse (js ''reply: {"a": [1, 2]} done'') = Inr (js ''{"a": [1, 2]}'') \<and>
   nestingBalancedAt (js ''{"a": [1, 2]} done'') 12 \<and>
   sublist (js ''{"a": [1, 2]}'') (js ''reply: {"a": [1, 2]} done'')\<close>
proof -
  have 1: \<open>extractJsonFromResponse (js ''just prose, no JSON here'') = Inl NoJsonFound\<close>
    by (simp add: eval_defs)
  have 2: \<open>extractJsonFromResponse (js ''{"a": "b"'') = Inl IncompleteJson\<close>
    by (simp add: eval_defs)
  have 3: \<open>extractJsonFromResponse (js ''reply: {"a": [1, 2]} done'') = Inr (js ''{"a": [1, 2]}'')\<close>
    by (simp add: eval_defs)
  have c1: \<open>cleanedText (js ''just prose, no JSON here'') = js ''just prose, no JSON here''\<close>
    by (simp add: eval_defs)
  have c2: \<open>cleanedText (js ''{"a": "b"'') = js ''{"a": "b"''\<close>
    by (simp add: eval_defs)
  have c3: \<open>cleanedText (js ''reply: {"a": [1, 2]} done'') = js ''reply: {"a": [1, 2]} done''\<close>
    by (simp add: eval_defs)
  have d2: \<open>dropWhile (\<lambda>c. c \<noteq> LBRACE \<and> c \<noteq> LBRACKET) (js ''{"a": "b"'') = js ''{"a": "b"''\<close>
    by (simp add: js_def)
  have d3: \<open>dropWhile (\<lambda>c. c \<noteq> LBRACE \<and> c \<noteq> LBRACKET) (js ''reply: {"a": [1, 2]} done'') =
      js ''{"a": [1, 2]} done''\<close>
    by (simp add: js_def)
  have s2: \<open>noStrayBackslash (js ''{"a": "b"'')\<close>
    by (simp add: read_defs)
  have s3: \<open>noStrayBackslash (js ''{"a": [1, 2]}'')\<close>
    by (simp add: read_defs)
  have t3: \<open>take (Suc 12) (js ''{"a": [1, 2]} done'') = js ''{"a": [1, 2]}''\<close>
    \<open>12 < length (js ''{"a": [1, 2]} done'')\<close>
    by (simp_all add: js_def)
  from extractJson_fails_exactly [of \<open>js ''just prose, no JSON here''\<close>] 1
  have \<open>LBRACE \<notin> set (js ''just prose, no JSON here'')\<close>
    unfolding c1 Let_def by blast
  moreover from extractJson_fails_exactly [of \<open>js ''{"a": "b"''\<close>] 2 s2
  have \<open>\<forall>n. \<not> nestingBalancedAt (js ''{"a": "b"'') n\<close>
    unfolding c2 d2 Let_def by blast
  moreover from extractJson_fails_exactly [of \<open>js ''reply: {"a": [1, 2]} done''\<close>] 3 s3 t3
  have \<open>nestingBalancedAt (js ''{"a": [1, 2]} done'') 12 \<and>
        sublist (js ''{"a": [1, 2]}'') (js ''reply: {"a": [1, 2]} done'')\<close>
    unfolding c3 d3 Let_def by metis
  ultimately show ?thesis
    using 1 2 3 s2 s3 by blast
qed

text \<open>
  C1 as stated fails. The scan keeps one counter for braces and one for brackets: on
  \<^verbatim>\<open>[}\<close> the combined counter of the specification returns to zero at index 1, and
  \<^verbatim>\<open>extractJsonFromResponse\<close> throws "Incomplete JSON". The scan also takes a backslash
  outside a string literal for an escape: in the second text it steps over the first
  \<^verbatim>\<open>}\<close> and returns a text with one opening and two closing braces, where the scan of
  the specification ends at index 2.
\<close>

theorem extractJson_fails_counterexample:
  \<open>cleanedText (js ''[}'') = js ''[}'' \<and>
   specScanEnd 0 0 False False False (js ''[}'') = Some 1 \<and>
   extractJsonFromResponse (js ''[}'') = Inl IncompleteJson \<and>
   cleanedText (LBRACE # BACKSLASH # js ''}}'') = LBRACE # BACKSLASH # js ''}}'' \<and>
   specScanEnd 0 0 False False False (LBRACE # BACKSLASH # js ''}}'') = Some 2 \<and>
   extractJsonFromResponse (LBRACE # BACKSLASH # js ''}}'') = Inr (LBRACE # BACKSLASH # js ''}}'')\<close>
  by (simp add: eval_defs)

subsection \<open>What the scanning loop skips\<close>

lemma scan_plain:
  assumes "list_all (\<lambda>c. c \<noteq> DQUOTE \<and> c \<noteq> BACKSLASH \<and> c \<noteq> LBRACE \<and> c \<noteq> RBRACE \<and>
      c \<noteq> LBRACKET \<and> c \<noteq> RBRACKET) xs"
  shows "scanJsonEnd i b k False False (xs @ ys) = scanJsonEnd (i + length xs) b k False False ys"
  using assms by (induction xs arbitrary: i) auto

lemma scan_in_string:
  assumes "stringBody w"
  shows "scanJsonEnd i b k True False (w @ DQUOTE # ys) =
    scanJsonEnd (i + length w + 1) b k False False ys"
  using assms by (induction w arbitrary: i rule: stringBody.induct) auto

lemma scan_string:
  assumes "stringBody w"
  shows "scanJsonEnd i b k False False (DQUOTE # w @ DQUOTE # ys) =
    scanJsonEnd (i + length w + 2) b k False False ys"
  using scan_in_string [OF assms, of "Suc i"] by simp

lemma stringBody_plain:
  "c \<noteq> BACKSLASH \<Longrightarrow> c \<noteq> DQUOTE \<Longrightarrow> stringBody (c # cs) = stringBody cs"
  by (cases cs) auto

lemma stringBody_escape: "stringBody (BACKSLASH # e # cs) = stringBody cs"
  by simp

lemma isHex_plain: "isHex c \<Longrightarrow> c \<noteq> BACKSLASH \<and> c \<noteq> DQUOTE"
  by (auto simp: isHex_def isDigit_def)

lemma stringBody_renderChar:
  assumes that: "wfChar x"
  shows "stringBody (renderChar x @ cs) = stringBody cs"
proof (cases x)
  case (Plain c)
  with that show ?thesis by (simp add: stringBody_plain del: stringBody.simps)
next
  case (Escape e)
  then show ?thesis by simp
next
  case (Unicode a b c d)
  with that have "isHex a" "isHex b" "isHex c" "isHex d" by simp_all
  then have "stringBody (a # b # c # d # cs) = stringBody cs"
    using isHex_plain by (simp add: stringBody_plain del: stringBody.simps)
  with Unicode show ?thesis by simp
qed

lemma stringBody_chars: "list_all wfChar cs \<Longrightarrow> stringBody (concat (map renderChar cs))"
  by (induction cs) (simp_all add: stringBody_renderChar)

lemma scan_renderString:
  assumes "list_all wfChar cs"
  shows "scanJsonEnd i b k False False (renderString cs @ ys) =
    scanJsonEnd (i + length (renderString cs)) b k False False ys"
  using scan_string [OF stringBody_chars [OF assms], of i b k ys]
  by (simp add: renderString_def)

lemma scan_ws:
  assumes "isJsonWs w"
  shows "scanJsonEnd i b k False False (w @ ys) = scanJsonEnd (i + length w) b k False False ys"
proof (rule scan_plain)
  show "list_all (\<lambda>c. c \<noteq> DQUOTE \<and> c \<noteq> BACKSLASH \<and> c \<noteq> LBRACE \<and> c \<noteq> RBRACE \<and>
      c \<noteq> LBRACKET \<and> c \<noteq> RBRACKET) w"
    using assms by (auto simp: isJsonWs_def list_all_iff)
qed

lemma digits_plain:
  "isDigits ds \<Longrightarrow> list_all (\<lambda>c. c \<noteq> DQUOTE \<and> c \<noteq> BACKSLASH \<and> c \<noteq> LBRACE \<and> c \<noteq> RBRACE \<and>
      c \<noteq> LBRACKET \<and> c \<noteq> RBRACKET) ds"
  by (auto simp: isDigits_def isDigit_def list_all_iff)

lemma number_plain:
  assumes "wfNumber n"
  shows "list_all (\<lambda>c. c \<noteq> DQUOTE \<and> c \<noteq> BACKSLASH \<and> c \<noteq> LBRACE \<and> c \<noteq> RBRACE \<and>
      c \<noteq> LBRACKET \<and> c \<noteq> RBRACKET) (renderNumber n)"
proof (cases n)
  case (JNum negative whole fraction exponent)
  with assms show ?thesis
    by (auto simp: digits_plain split: option.splits)
qed

lemma scan_value:
  "wfValue v \<Longrightarrow> 0 \<le> b \<Longrightarrow> 0 \<le> k \<Longrightarrow> 0 < b + k \<Longrightarrow>
     scanJsonEnd i b k False False (render v @ ys) =
     scanJsonEnd (i + length (render v)) b k False False ys"
  and scan_elements:
  "wfElements es \<Longrightarrow> 0 \<le> b \<Longrightarrow> 0 \<le> k \<Longrightarrow> 0 < b + k \<Longrightarrow>
     scanJsonEnd i b k False False (renderElements es @ ys) =
     scanJsonEnd (i + length (renderElements es)) b k False False ys"
  and scan_members:
  "wfMembers ms \<Longrightarrow> 0 \<le> b \<Longrightarrow> 0 \<le> k \<Longrightarrow> 0 < b + k \<Longrightarrow>
     scanJsonEnd i b k False False (renderMembers ms @ ys) =
     scanJsonEnd (i + length (renderMembers ms)) b k False False ys"
proof (induction v and es and ms arbitrary: i b k ys and i b k ys and i b k ys)
  case JNull
  show ?case by (rule scan_plain) (simp add: js_def)
next
  case JTrue
  show ?case by (rule scan_plain) (simp add: js_def)
next
  case JFalse
  show ?case by (rule scan_plain) (simp add: js_def)
next
  case (JNumber n)
  then show ?case by (simp add: scan_plain number_plain)
next
  case (JString cs)
  then show ?case by (simp add: scan_renderString)
next
  case (JEmptyArray w)
  then show ?case by (auto simp: scan_ws)
next
  case (JArray es)
  from JArray.prems have "0 \<le> b" "0 \<le> k + 1" "0 < b + (k + 1)" "wfElements es"
    by simp_all
  from JArray.IH [OF this(4) this(1) this(2) this(3)] JArray.prems show ?case
    by auto
next
  case (JEmptyObject w)
  then show ?case by (auto simp: scan_ws)
next
  case (JObject ms)
  from JObject.prems have "0 \<le> b + 1" "0 \<le> k" "0 < (b + 1) + k" "wfMembers ms"
    by simp_all
  from JObject.IH [OF this(4) this(1) this(2) this(3)] JObject.prems show ?case
    by auto
next
  case (ELast w v w')
  then show ?case by (simp add: scan_ws add.assoc)
next
  case (ECons w v w' es)
  then show ?case by (simp add: scan_ws add.assoc)
next
  case (MLast w key w1 w2 v w')
  then show ?case by (simp add: scan_ws scan_renderString add.assoc)
next
  case (MCons w key w1 w2 v w' ms)
  then show ?case by (simp add: scan_ws scan_renderString add.assoc)
qed

subsection \<open>A valid object or array is returned unchanged\<close>

lemma container_shape:
  assumes "isContainer v"
  shows "\<exists>c inner d. render v = c # inner @ [d] \<and> (c = LBRACE \<or> c = LBRACKET) \<and>
    (d = RBRACE \<or> d = RBRACKET)"
  using assms by (cases v) auto

lemma scan_container:
  assumes "wfValue v" "isContainer v"
  shows "scanJsonEnd i 0 0 False False (render v @ ys) = Some (i + length (render v) - 1)"
proof (cases v)
  case (JEmptyArray w)
  with assms show ?thesis by (simp add: scan_ws)
next
  case (JArray es)
  with assms have "wfElements es" by simp
  from scan_elements [OF this, of 0 1 "Suc i" "RBRACKET # ys"] JArray show ?thesis
    by simp
next
  case (JEmptyObject w)
  with assms show ?thesis by (simp add: scan_ws)
next
  case (JObject ms)
  with assms have "wfMembers ms" by simp
  from scan_members [OF this, of 1 0 "Suc i" "RBRACE # ys"] JObject show ?thesis
    by simp
qed (use assms in simp_all)

lemma endsWith_last:
  assumes "endsWith s p" "p \<noteq> []"
  shows "last s = last p"
proof -
  from assms(1) have d: "drop (length s - length p) s = p" and le: "length p \<le> length s"
    by (auto simp: endsWith_def)
  from assms(2) have "0 < length p" by simp
  with le have "length s - length p < length s" by arith
  with d show ?thesis
    by (metis last_drop)
qed

lemma jsonWs_whiteSpace: "isJsonWs w \<Longrightarrow> list_all isWhiteSpace w"
  by (auto simp: isJsonWs_def isWhiteSpace_def list_all_iff)

lemma trim_padded:
  assumes "list_all isWhiteSpace w" "list_all isWhiteSpace w'"
    and "x \<noteq> []" "\<not> isWhiteSpace (hd x)" "\<not> isWhiteSpace (last x)"
  shows "trim (w @ x @ w') = x"
proof -
  obtain c xs where x: "x = c # xs"
    using assms(3) by (cases x) auto
  have 1: "dropWhile isWhiteSpace (w @ x @ w') = x @ w'"
    using assms(1,4) x by (simp add: dropWhile_append2 list_all_iff)
  obtain ys d where y: "rev x = d # ys"
    using assms(3) by (cases "rev x") auto
  then have "d = last x"
    using assms(3) by (metis last_rev list.sel(1) rev_rev_ident hd_rev)
  have "dropWhile isWhiteSpace (rev w' @ rev x) = dropWhile isWhiteSpace (rev x)"
    using assms(2) by (intro dropWhile_append2) (simp add: list_all_iff)
  also have "\<dots> = rev x"
    unfolding y using \<open>d = last x\<close> assms(5) by simp
  finally have 2: "dropWhile isWhiteSpace (rev w' @ rev x) = rev x" .
  show ?thesis
    by (simp add: trim_def 1 2)
qed

lemma trim_container:
  assumes "isContainer v" "isJsonWs w" "isJsonWs w'"
  shows "trim (w @ render v @ w') = render v"
proof -
  from container_shape [OF assms(1)] obtain c inner d where
    r: "render v = c # inner @ [d]" "c = LBRACE \<or> c = LBRACKET" "d = RBRACE \<or> d = RBRACKET"
    by blast
  have "trim (w @ (c # inner @ [d]) @ w') = c # inner @ [d]"
    using r(2,3) assms(2,3)
    by (intro trim_padded jsonWs_whiteSpace) (auto simp: isWhiteSpace_def)
  then show ?thesis by (simp add: r(1))
qed

lemma stripFences_container:
  assumes "isContainer v" "isJsonWs w" "isJsonWs w'"
  shows "stripFences (w @ render v @ w') = render v"
proof -
  from container_shape [OF assms(1)] obtain c inner d where
    r: "render v = c # inner @ [d]" "c = LBRACE \<or> c = LBRACKET" "d = RBRACE \<or> d = RBRACKET"
    by blast
  have s: "\<not> startsWith (render v) (js ''```json'')" "\<not> startsWith (render v) (js ''```'')"
    using r by (auto simp: startsWith_def js_def)
  have "last (render v) = d"
    by (simp add: r(1))
  then have e: "\<not> endsWith (render v) (js ''```'')"
    using r(3) endsWith_last [of "render v" "js ''```''"] by (auto simp: js_def)
  have t: "trim (render v) = render v"
    using trim_container [OF assms(1), of "[]" "[]"] by (simp add: isJsonWs_def)
  show ?thesis
    by (simp add: stripFences_def trim_container [OF assms] s e t)
qed

lemma repairBackticks_unchanged: "\<not> hasBacktickValue t \<Longrightarrow> repairBackticks t = t"
proof (induction t)
  case Nil
  show ?case by simp
next
  case (Cons c t)
  then have r: "repairBackticks t = t"
    by simp
  show ?case
  proof (cases "backtickValue t")
    case None
    with r show ?thesis by simp
  next
    case (Some m)
    with Cons.prems have "c \<noteq> COLON" by auto
    with r show ?thesis by simp
  qed
qed

lemma backtickValue_append:
  assumes "backtickValue cs \<noteq> None"
  shows "backtickValue (cs @ q) \<noteq> None"
proof -
  from assms obtain r where d: "dropWhile isWhiteSpace cs = BACKTICK # r" and b: "BACKTICK \<in> set r"
    by (auto simp: backtickValue_def split: list.splits if_splits)
  then obtain x where "x \<in> set cs" "\<not> isWhiteSpace x"
    by (metis dropWhile_eq_Nil_conv list.distinct(1))
  then have "dropWhile isWhiteSpace (cs @ q) = dropWhile isWhiteSpace cs @ q"
    by (rule dropWhile_append1)
  then have "dropWhile isWhiteSpace (cs @ q) = (BACKTICK # r) @ q"
    using d by simp
  with b show ?thesis
    by (simp add: backtickValue_def)
qed

lemma hasBacktickValue_append: "hasBacktickValue x \<Longrightarrow> hasBacktickValue (x @ q)"
proof (induction x)
  case Nil
  then show ?case by simp
next
  case (Cons c x)
  show ?case
  proof (cases "c = COLON \<and> backtickValue x \<noteq> None")
    case True
    then have "backtickValue (x @ q) \<noteq> None"
      using backtickValue_append by blast
    with True show ?thesis by simp
  next
    case False
    with Cons.prems have "hasBacktickValue x" by auto
    with Cons.IH show ?thesis by simp
  qed
qed

lemma hasBacktickValue_prepend: "hasBacktickValue x \<Longrightarrow> hasBacktickValue (p @ x)"
  by (induction p) auto

lemma jsonStartIndex_container:
  assumes "isContainer v"
  shows "jsonStartIndex (render v) = Some 0"
proof -
  from container_shape [OF assms] obtain c inner d where
    "render v = c # inner @ [d]" "c = LBRACE \<or> c = LBRACKET"
    by blast
  then show ?thesis
    by (auto simp: jsonStartIndex_def split: option.splits)
qed

lemma extractJson_cleaned_container:
  assumes "wfValue v" "isContainer v" "cleanedText raw = render v"
  shows "extractJsonFromResponse raw = Inr (render v)"
proof -
  have "scanJsonEnd 0 0 0 False False (render v) = Some (length (render v) - 1)"
    using scan_container [OF assms(1,2), of 0 "[]"] by simp
  moreover have "render v \<noteq> []"
    using container_shape [OF assms(2)] by auto
  ultimately show ?thesis
    by (simp add: extractJsonFromResponse_def assms(3) jsonStartIndex_container [OF assms(2)]
        substring_def)
qed

lemma cleanedText_padded_container:
  assumes "isContainer v" "isJsonWs w" "isJsonWs w'"
    and "\<not> hasBacktickValue (w @ render v @ w')"
  shows "cleanedText (w @ render v @ w') = render v"
proof -
  have "\<not> hasBacktickValue (render v)"
    using assms(4) hasBacktickValue_append hasBacktickValue_prepend by blast
  then show ?thesis
    by (simp add: cleanedText_def stripFences_container [OF assms(1,2,3)] repairBackticks_unchanged)
qed

lemma cleanedText_fenced_container:
  assumes "isContainer v" "isJsonWs w" "isJsonWs w'"
    and "\<not> hasBacktickValue (w @ render v @ w')"
  shows "cleanedText (js ''```json'' @ NEWLINE # (w @ render v @ w') @ NEWLINE # js ''```'') = render v"
proof -
  define T where "T = w @ render v @ w'"
  define F where "F = js ''```json'' @ NEWLINE # T @ NEWLINE # js ''```''"
  have F1: "F = BACKTICK # (js ''``json'' @ NEWLINE # T @ NEWLINE # js ''``'') @ [BACKTICK]"
    by (simp add: F_def js_def)
  have "trim ([] @ F @ []) = F"
    unfolding F1 by (rule trim_padded) (simp_all add: isWhiteSpace_def)
  then have t0: "trim F = F" by simp
  have s: "startsWith F (js ''```json'')"
    by (simp add: F_def startsWith_def js_def)
  have d7: "drop 7 F = NEWLINE # T @ NEWLINE # js ''```''"
    by (simp add: F_def js_def)
  have e: "endsWith (NEWLINE # T @ NEWLINE # js ''```'') (js ''```'')"
    by (simp add: endsWith_def js_def)
  have cut: "take (length (NEWLINE # T @ NEWLINE # js ''```'') - 3) (NEWLINE # T @ NEWLINE # js ''```'') =
      (NEWLINE # w) @ render v @ (w' @ [NEWLINE])"
    by (simp add: T_def js_def)
  have ws: "isJsonWs (NEWLINE # w)" "isJsonWs (w' @ [NEWLINE])"
    using assms(2,3) by (simp_all add: isJsonWs_def)
  have c0: "trim ((NEWLINE # w) @ render v @ (w' @ [NEWLINE])) = render v"
    by (rule trim_container [OF assms(1) ws])
  have "stripFences F = render v"
    by (simp only: stripFences_def Let_def t0 s if_True d7 e cut c0)
  moreover have "\<not> hasBacktickValue (render v)"
    using assms(4) hasBacktickValue_append hasBacktickValue_prepend by blast
  ultimately have "cleanedText F = render v"
    by (simp add: cleanedText_def repairBackticks_unchanged)
  then show ?thesis by (simp add: F_def T_def)
qed

subsection \<open>The inline extraction on a valid object or array\<close>

lemma last_plain:
  assumes "list_all (\<lambda>c. c \<noteq> DQUOTE \<and> c \<noteq> BACKSLASH \<and> c \<noteq> LBRACE \<and> c \<noteq> RBRACE \<and>
      c \<noteq> LBRACKET \<and> c \<noteq> RBRACKET) xs"
  shows "scanLastBrace i n False False (xs @ ys) = scanLastBrace (i + length xs) n False False ys"
  using assms by (induction xs arbitrary: i) auto

lemma last_in_string:
  assumes "stringBody w"
  shows "scanLastBrace i n True False (w @ DQUOTE # ys) =
    scanLastBrace (i + length w + 1) n False False ys"
  using assms by (induction w arbitrary: i rule: stringBody.induct) auto

lemma last_renderString:
  assumes "list_all wfChar cs"
  shows "scanLastBrace i n False False (renderString cs @ ys) =
    scanLastBrace (i + length (renderString cs)) n False False ys"
  using last_in_string [OF stringBody_chars [OF assms], of "Suc i" n ys]
  by (simp add: renderString_def)

lemma last_ws:
  assumes "isJsonWs w"
  shows "scanLastBrace i n False False (w @ ys) = scanLastBrace (i + length w) n False False ys"
proof (rule last_plain)
  show "list_all (\<lambda>c. c \<noteq> DQUOTE \<and> c \<noteq> BACKSLASH \<and> c \<noteq> LBRACE \<and> c \<noteq> RBRACE \<and>
      c \<noteq> LBRACKET \<and> c \<noteq> RBRACKET) w"
    using assms by (auto simp: isJsonWs_def list_all_iff)
qed

lemma last_value:
  "wfValue v \<Longrightarrow> 0 < n \<Longrightarrow>
     scanLastBrace i n False False (render v @ ys) =
     scanLastBrace (i + length (render v)) n False False ys"
  and last_elements:
  "wfElements es \<Longrightarrow> 0 < n \<Longrightarrow>
     scanLastBrace i n False False (renderElements es @ ys) =
     scanLastBrace (i + length (renderElements es)) n False False ys"
  and last_members:
  "wfMembers ms \<Longrightarrow> 0 < n \<Longrightarrow>
     scanLastBrace i n False False (renderMembers ms @ ys) =
     scanLastBrace (i + length (renderMembers ms)) n False False ys"
proof (induction v and es and ms arbitrary: i n ys and i n ys and i n ys)
  case JNull
  show ?case by (rule last_plain) (simp add: js_def)
next
  case JTrue
  show ?case by (rule last_plain) (simp add: js_def)
next
  case JFalse
  show ?case by (rule last_plain) (simp add: js_def)
next
  case (JNumber x)
  then show ?case by (simp add: last_plain number_plain)
next
  case (JString cs)
  then show ?case by (simp add: last_renderString)
next
  case (JEmptyArray w)
  then show ?case by (auto simp: last_ws)
next
  case (JArray es)
  from JArray.prems have "wfElements es" "0 < n + 1" by simp_all
  from JArray.IH [OF this] JArray.prems show ?case by auto
next
  case (JEmptyObject w)
  then show ?case by (auto simp: last_ws)
next
  case (JObject ms)
  from JObject.prems have "wfMembers ms" "0 < n + 1" by simp_all
  from JObject.IH [OF this] JObject.prems show ?case by auto
next
  case (ELast w v w')
  then show ?case by (simp add: last_ws add.assoc)
next
  case (ECons w v w' es)
  then show ?case by (simp add: last_ws add.assoc)
next
  case (MLast w key w1 w2 v w')
  then show ?case by (simp add: last_ws last_renderString add.assoc)
next
  case (MCons w key w1 w2 v w' ms)
  then show ?case by (simp add: last_ws last_renderString add.assoc)
qed

lemma last_container:
  assumes "wfValue v" "isContainer v"
  shows "scanLastBrace i 0 False False (render v @ ys) = Some (i + length (render v) - 1)"
proof (cases v)
  case (JEmptyArray w)
  with assms show ?thesis by (simp add: last_ws)
next
  case (JArray es)
  with assms have "wfElements es" by simp
  from last_elements [OF this, of 1 "Suc i" "RBRACKET # ys"] JArray show ?thesis
    by simp
next
  case (JEmptyObject w)
  with assms show ?thesis by (simp add: last_ws)
next
  case (JObject ms)
  with assms have "wfMembers ms" by simp
  from last_members [OF this, of 1 "Suc i" "RBRACE # ys"] JObject show ?thesis
    by simp
qed (use assms in simp_all)

lemma planJsonText_container:
  assumes "wfValue v" "isContainer v" "isJsonWs w" "isJsonWs w'"
  shows "planJsonText (w @ render v @ w') = render v"
proof -
  from container_shape [OF assms(2)] obtain c inner d where
    r: "render v = c # inner @ [d]" "c = LBRACE \<or> c = LBRACKET" "d = RBRACE \<or> d = RBRACKET"
    by blast
  have f: "\<not> startsWith (render v) (js ''```'')"
    using r by (auto simp: startsWith_def js_def)
  have st: "startsWith (render v) [LBRACE] \<or> startsWith (render v) [LBRACKET]"
    using r by (auto simp: startsWith_def)
  have sc: "scanLastBrace 0 0 False False (render v) = Some (length (render v) - 1)"
    using last_container [OF assms(1,2), of 0 "[]"] by simp
  have len: "0 < length (render v) - 1"
    by (simp add: r(1))
  have sub: "substring (render v) 0 (length (render v) - 1 + 1) = render v"
    by (simp add: substring_def r(1))
  show ?thesis
    unfolding planJsonText_def Let_def trim_container [OF assms(2,3,4)]
    using f st sc len sub by auto
qed


subsection \<open>Prose around the JSON value\<close>

lemma dropWhile_stop: "\<not> P c \<Longrightarrow> dropWhile P (p @ c # r) = dropWhile P p @ c # r"
  by (induction p) auto

lemma trim_around:
  assumes "x \<noteq> []" "\<not> isWhiteSpace (hd x)" "\<not> isWhiteSpace (last x)"
  shows "trim (p @ x @ q) = dropWhile isWhiteSpace p @ x @ rev (dropWhile isWhiteSpace (rev q))"
proof -
  obtain c xs where x: "x = c # xs"
    using assms(1) by (cases x) auto
  have 1: "dropWhile isWhiteSpace (p @ x @ q) = dropWhile isWhiteSpace p @ x @ q"
    using assms(2) x dropWhile_stop [of isWhiteSpace c p "xs @ q"] by simp
  obtain d ys where y: "rev x = d # ys"
    using assms(1) by (cases "rev x") auto
  then have "d = last x"
    using assms(1) by (metis last_rev list.sel(1) rev_rev_ident hd_rev)
  then have "dropWhile isWhiteSpace (rev q @ d # (ys @ rev (dropWhile isWhiteSpace p))) =
      dropWhile isWhiteSpace (rev q) @ d # (ys @ rev (dropWhile isWhiteSpace p))"
    using assms(3) by (intro dropWhile_stop) simp
  then have 2: "dropWhile isWhiteSpace (rev q @ rev x @ rev (dropWhile isWhiteSpace p)) =
      dropWhile isWhiteSpace (rev q) @ rev x @ rev (dropWhile isWhiteSpace p)"
    by (simp add: y)
  show ?thesis
    by (simp add: trim_def 1 2)
qed

lemma backtickValue_backtick:
  assumes "BACKTICK \<notin> set cs"
  shows "backtickValue cs = None"
proof (cases "dropWhile isWhiteSpace cs")
  case Nil
  show ?thesis unfolding backtickValue_def Nil by simp
next
  case (Cons c r)
  then have "c \<in> set cs"
    by (metis list.set_intros(1) set_dropWhileD)
  with assms have "c \<noteq> BACKTICK" by auto
  then show ?thesis unfolding backtickValue_def Cons by simp
qed

lemma no_backtick_no_value: "BACKTICK \<notin> set t \<Longrightarrow> \<not> hasBacktickValue t"
  by (induction t) (simp_all add: backtickValue_backtick)

lemma no_backtick_no_fence:
  assumes "BACKTICK \<notin> set t"
  shows "\<not> startsWith t (js ''```json'')" "\<not> startsWith t (js ''```'')" "\<not> endsWith t (js ''```'')"
proof -
  show "\<not> startsWith t (js ''```json'')" "\<not> startsWith t (js ''```'')"
    using assms by (cases t; auto simp: startsWith_def js_def)+
  show "\<not> endsWith t (js ''```'')"
  proof
    assume e: "endsWith t (js ''```'')"
    then have "last t = BACKTICK"
      using endsWith_last [of t "js ''```''"] by (simp add: js_def)
    moreover from e have "t \<noteq> []"
      by (auto simp: endsWith_def js_def)
    ultimately show False
      using assms last_in_set by metis
  qed
qed

lemma trim_subset: "set (trim t) \<subseteq> set t"
proof -
  have "set (trim t) = set (dropWhile isWhiteSpace (rev (dropWhile isWhiteSpace t)))"
    by (simp add: trim_def)
  also have "\<dots> \<subseteq> set (rev (dropWhile isWhiteSpace t))"
    by (auto dest: set_dropWhileD)
  also have "\<dots> \<subseteq> set t"
    by (auto dest: set_dropWhileD)
  finally show ?thesis .
qed

lemma cleanedText_no_backtick:
  assumes "BACKTICK \<notin> set raw"
  shows "cleanedText raw = trim raw"
proof -
  have b: "BACKTICK \<notin> set (trim raw)"
    using assms trim_subset by blast
  have "trim (trim raw) = trim raw"
  proof (cases "trim raw = []")
    case True
    have "trim [] = []" by (simp add: trim_def)
    with True show ?thesis by simp
  next
    case False
    define u where "u = dropWhile isWhiteSpace raw"
    have t: "trim raw = rev (dropWhile isWhiteSpace (rev u))"
      by (simp add: trim_def u_def)
    with False have une: "u \<noteq> []" by auto
    have h: "\<not> isWhiteSpace (hd (trim raw))"
    proof -
      from False t obtain d ys where d: "dropWhile isWhiteSpace (rev u) = d # ys"
        by (cases "dropWhile isWhiteSpace (rev u)") auto
      then have "\<exists>zs. rev u = zs @ d # ys"
        by (metis takeWhile_dropWhile_id)
      then obtain zs where "u = rev ys @ d # rev zs"
        by (metis rev_append rev_rev_ident rev.simps(2) append_Cons append_Nil append_assoc)
      moreover have "trim raw = rev ys @ [d]"
        by (simp add: t d)
      ultimately have "hd (trim raw) = hd u"
        by (cases "rev ys") auto
      moreover have "\<not> isWhiteSpace (hd u)"
        using une hd_dropWhile [of isWhiteSpace raw] by (simp add: u_def)
      ultimately show ?thesis by simp
    qed
    have l: "\<not> isWhiteSpace (last (trim raw))"
    proof -
      from False t have ne: "dropWhile isWhiteSpace (rev u) \<noteq> []" by auto
      have "last (trim raw) = hd (dropWhile isWhiteSpace (rev u))"
        using ne by (simp add: t last_rev)
      then show ?thesis
        using ne hd_dropWhile [of isWhiteSpace "rev u"] by simp
    qed
    from trim_around [OF False h l, of "[]" "[]"] show ?thesis by simp
  qed
  then show ?thesis
    by (simp add: cleanedText_def stripFences_def no_backtick_no_fence [OF b]
        repairBackticks_unchanged no_backtick_no_value [OF b])
qed

lemma jsonStartIndex_after_prose:
  assumes "LBRACE \<notin> set p" "LBRACKET \<notin> set p" "c = LBRACE \<or> c = LBRACKET"
  shows "jsonStartIndex (p @ c # r) = Some (length p)"
proof -
  have "takeWhile (\<lambda>c. c \<noteq> LBRACE \<and> c \<noteq> LBRACKET) (p @ c # r) =
      p @ takeWhile (\<lambda>c. c \<noteq> LBRACE \<and> c \<noteq> LBRACKET) (c # r)"
    using assms(1,2) by (intro takeWhile_append2) auto
  then show ?thesis
    using assms(3) by (auto simp: jsonStartIndex_eq)
qed

lemma extractJson_in_prose:
  assumes "wfValue v" "isContainer v"
    and "BACKTICK \<notin> set (pre @ render v @ post)"
    and "LBRACE \<notin> set pre" "LBRACKET \<notin> set pre"
  shows "extractJsonFromResponse (pre @ render v @ post) = Inr (render v)"
proof -
  define p where "p = dropWhile isWhiteSpace pre"
  define q where "q = rev (dropWhile isWhiteSpace (rev post))"
  from container_shape [OF assms(2)] obtain c inner d where
    r: "render v = c # inner @ [d]" "c = LBRACE \<or> c = LBRACKET" "d = RBRACE \<or> d = RBRACKET"
    by blast
  have "trim (pre @ (c # inner @ [d]) @ post) = p @ (c # inner @ [d]) @ q"
    unfolding p_def q_def using r(2,3) by (intro trim_around) (auto simp: isWhiteSpace_def)
  then have t: "trim (pre @ render v @ post) = p @ render v @ q"
    by (simp add: r(1))
  have cl: "cleanedText (pre @ render v @ post) = p @ render v @ q"
    using cleanedText_no_backtick [OF assms(3)] t by simp
  have pp: "LBRACE \<notin> set p" "LBRACKET \<notin> set p"
    using assms(4,5) by (auto simp: p_def dest: set_dropWhileD)
  have st: "jsonStartIndex (p @ render v @ q) = Some (length p)"
    using jsonStartIndex_after_prose [OF pp r(2), of "inner @ [d] @ q"] by (simp add: r(1))
  have sc: "scanJsonEnd (length p) 0 0 False False (render v @ q) =
      Some (length p + length (render v) - 1)"
    by (rule scan_container [OF assms(1,2)])
  have e: "Suc (length p + length (render v) - Suc 0) = length p + length (render v)"
    by (simp add: r(1))
  have sub: "substring (p @ render v @ q) (length p) (Suc (length p + length (render v) - Suc 0)) = render v"
    unfolding e by (simp add: substring_def min_def max_def)
  show ?thesis
    by (simp add: extractJsonFromResponse_def cl st sc sub)
qed

lemma planStart_eq:
  "(case (indexOfChar LBRACE t, indexOfChar LBRACKET t) of
      (None, None) \<Rightarrow> t
    | (Some a, None) \<Rightarrow> drop a t
    | (None, Some b) \<Rightarrow> drop b t
    | (Some a, Some b) \<Rightarrow> drop (min a b) t) =
   (case jsonStartIndex t of None \<Rightarrow> t | Some a \<Rightarrow> drop a t)"
  by (auto simp: jsonStartIndex_def min_def split: option.splits)

lemma planJsonText_in_prose:
  assumes "wfValue v" "isContainer v"
    and "BACKTICK \<notin> set (pre @ render v @ post)"
    and "LBRACE \<notin> set pre" "LBRACKET \<notin> set pre"
  shows "planJsonText (pre @ render v @ post) = render v"
proof -
  define p where "p = dropWhile isWhiteSpace pre"
  define q where "q = rev (dropWhile isWhiteSpace (rev post))"
  from container_shape [OF assms(2)] obtain c inner d where
    r: "render v = c # inner @ [d]" "c = LBRACE \<or> c = LBRACKET" "d = RBRACE \<or> d = RBRACKET"
    by blast
  have "trim (pre @ (c # inner @ [d]) @ post) = p @ (c # inner @ [d]) @ q"
    unfolding p_def q_def using r(2,3) by (intro trim_around) (auto simp: isWhiteSpace_def)
  then have t: "trim (pre @ render v @ post) = p @ render v @ q"
    by (simp add: r(1))
  have "BACKTICK \<notin> set (trim (pre @ render v @ post))"
    using assms(3) trim_subset by blast
  then have nf: "\<not> startsWith (p @ render v @ q) (js ''```'')"
    using no_backtick_no_fence(2) t by simp
  have pp: "LBRACE \<notin> set p" "LBRACKET \<notin> set p"
    using assms(4,5) by (auto simp: p_def dest: set_dropWhileD)
  have st: "jsonStartIndex (p @ render v @ q) = Some (length p)"
    using jsonStartIndex_after_prose [OF pp r(2), of "inner @ [d] @ q"] by (simp add: r(1))
  define t2 where "t2 =
    (if \<not> startsWith (p @ render v @ q) [LBRACE] \<and> \<not> startsWith (p @ render v @ q) [LBRACKET] then
       (case (indexOfChar LBRACE (p @ render v @ q), indexOfChar LBRACKET (p @ render v @ q)) of
          (None, None) \<Rightarrow> p @ render v @ q
        | (Some a, None) \<Rightarrow> drop a (p @ render v @ q)
        | (None, Some b) \<Rightarrow> drop b (p @ render v @ q)
        | (Some a, Some b) \<Rightarrow> drop (min a b) (p @ render v @ q))
     else p @ render v @ q)"
  have t2: "t2 = render v @ q"
  proof (cases p)
    case Nil
    then show ?thesis
      using r(1,2) by (auto simp: t2_def startsWith_def)
  next
    case (Cons x xs)
    with pp have "x \<noteq> LBRACE" "x \<noteq> LBRACKET" by auto
    with Cons have "\<not> startsWith (p @ render v @ q) [LBRACE] \<and> \<not> startsWith (p @ render v @ q) [LBRACKET]"
      by (simp add: startsWith_def)
    then show ?thesis
      unfolding t2_def planStart_eq st by simp
  qed
  have sc: "scanLastBrace 0 0 False False (render v @ q) = Some (length (render v) - 1)"
    using last_container [OF assms(1,2), of 0 q] by simp
  have len: "0 < length (render v) - 1"
    by (simp add: r(1))
  have sub: "substring (render v @ q) 0 (length (render v) - 1 + 1) = render v"
    by (simp add: substring_def r(1))
  have "planJsonText (pre @ render v @ post) =
    (case scanLastBrace 0 0 False False t2 of
       None \<Rightarrow> t2
     | Some lastBrace \<Rightarrow> if 0 < lastBrace then substring t2 0 (lastBrace + 1) else t2)"
    unfolding planJsonText_def Let_def t t2_def using nf by simp
  then show ?thesis
    unfolding t2 sc using len sub by simp
qed

lemma upToFence_no_backtick:
  "BACKTICK \<notin> set y \<Longrightarrow> upToFence (y @ NEWLINE # js ''```'') = Some y"
proof (induction y)
  case Nil
  show ?case by (simp add: startsWith_def js_def)
next
  case (Cons c y)
  then have "\<not> startsWith (c # y @ NEWLINE # js ''```'') (js ''```'')"
    by (simp add: startsWith_def js_def)
  moreover have "\<not> startsWith (c # y @ NEWLINE # js ''```'') (NEWLINE # js ''```'')"
    using Cons.prems by (cases y) (auto simp: startsWith_def js_def)
  ultimately show ?case
    using Cons by simp
qed

lemma planJsonText_fenced:
  assumes "wfValue v" "isContainer v" "isJsonWs w" "isJsonWs w'"
    and "BACKTICK \<notin> set (render v)"
  shows "planJsonText (js ''```json'' @ NEWLINE # (w @ render v @ w') @ NEWLINE # js ''```'') = render v"
proof -
  define F where "F = js ''```json'' @ NEWLINE # (w @ render v @ w') @ NEWLINE # js ''```''"
  from container_shape [OF assms(2)] obtain c inner d where
    r: "render v = c # inner @ [d]" "c = LBRACE \<or> c = LBRACKET" "d = RBRACE \<or> d = RBRACKET"
    by blast
  have F1: "F = BACKTICK # (js ''``json'' @ NEWLINE # (w @ render v @ w') @ NEWLINE # js ''``'') @ [BACKTICK]"
    by (simp add: F_def js_def)
  have "trim ([] @ F @ []) = F"
    unfolding F1 by (rule trim_padded) (simp_all add: isWhiteSpace_def)
  then have t0: "trim F = F" by simp
  have s: "startsWith F (js ''```'')"
    by (simp add: F_def startsWith_def js_def)
  have d3: "drop 3 F = js ''json'' @ NEWLINE # (w @ render v @ w') @ NEWLINE # js ''```''"
    by (simp add: F_def js_def)
  have sj: "startsWith (js ''json'' @ NEWLINE # (w @ render v @ w') @ NEWLINE # js ''```'') (js ''json'')"
    by (simp add: startsWith_def js_def)
  have d4: "drop 4 (js ''json'' @ NEWLINE # (w @ render v @ w') @ NEWLINE # js ''```'') =
      (NEWLINE # w) @ c # (inner @ [d] @ w' @ NEWLINE # js ''```'')"
    by (simp add: js_def r(1))
  have "\<not> isWhiteSpace c"
    using r(2) by (auto simp: isWhiteSpace_def)
  then have "dropWhile isWhiteSpace ((NEWLINE # w) @ c # (inner @ [d] @ w' @ NEWLINE # js ''```'')) =
      dropWhile isWhiteSpace (NEWLINE # w) @ c # (inner @ [d] @ w' @ NEWLINE # js ''```'')"
    by (rule dropWhile_stop)
  moreover have "dropWhile isWhiteSpace (NEWLINE # w) = []"
    using jsonWs_whiteSpace [OF assms(3)] by (simp add: isWhiteSpace_def list_all_iff)
  ultimately have dw: "dropWhile isWhiteSpace ((NEWLINE # w) @ c # (inner @ [d] @ w' @ NEWLINE # js ''```'')) =
      (render v @ w') @ NEWLINE # js ''```''"
    by (simp add: r(1))
  have "BACKTICK \<notin> set (render v @ w')"
    using assms(4,5) by (auto simp: isJsonWs_def list_all_iff)
  then have up: "upToFence ((render v @ w') @ NEWLINE # js ''```'') = Some (render v @ w')"
    by (rule upToFence_no_backtick)
  have fm: "fenceMatch F = Some (render v @ w')"
    by (simp only: fenceMatch_def Let_def d3 sj if_True d4 dw up)
  have tr: "trim (render v @ w') = render v"
    using trim_container [OF assms(2) _ assms(4), of "[]"] by (simp add: isJsonWs_def)
  have st: "startsWith (render v) [LBRACE] \<or> startsWith (render v) [LBRACKET]"
    using r by (auto simp: startsWith_def)
  have sc: "scanLastBrace 0 0 False False (render v) = Some (length (render v) - 1)"
    using last_container [OF assms(1,2), of 0 "[]"] by simp
  have len: "0 < length (render v) - 1"
    by (simp add: r(1))
  have sub: "substring (render v) 0 (length (render v) - 1 + 1) = render v"
    by (simp add: substring_def r(1))
  have "planJsonText F = render v"
    unfolding planJsonText_def Let_def t0 using s fm tr st sc len sub by auto
  then show ?thesis by (simp add: F_def)
qed

subsection \<open>The backtick repair\<close>

lemma hexDigit_isHex: "d < 16 \<Longrightarrow> isHex (hexDigit d)"
  by (auto simp: isHex_def isDigit_def hexDigit_def)

lemma hexValue_hexDigit: "d < 16 \<Longrightarrow> hexValue (hexDigit d) = d"
  by (auto simp: hexValue_def isDigit_def hexDigit_def)

lemma toHex_byte:
  assumes "c < 256"
  shows "drop (length (js ''0000'' @ toHex c) - 4) (js ''0000'' @ toHex c) =
    [48, 48, hexDigit (c div 16), hexDigit (c mod 16)]"
proof (cases "c < 16")
  case True
  then have "toHex c = [hexDigit c]"
    by (simp add: toHex.simps)
  with True show ?thesis
    by (simp add: js_def hexDigit_def)
next
  case False
  with assms have "c div 16 < 16" by simp
  then have "toHex (c div 16) = [hexDigit (c div 16)]"
    by (simp add: toHex.simps)
  with False have "toHex c = [hexDigit (c div 16), hexDigit (c mod 16)]"
    by (subst toHex.simps) simp
  then show ?thesis
    by (simp add: js_def)
qed

lemma unicodeEscape_byte:
  assumes "c < 256"
  shows "unicodeEscape c = [BACKSLASH, 117, 48, 48, hexDigit (c div 16), hexDigit (c mod 16)]"
  unfolding unicodeEscape_def Let_def toHex_byte [OF assms] by simp

lemma renderChar_escapeItem:
  "renderChar (escapeItem c) = (if inEscapeClass c then escapeChar c else [c])"
  by (auto simp: escapeItem_def inEscapeClass_def escapeChar_def unicodeEscape_byte)

lemma wfChar_escapeItem: "wfChar (escapeItem c)"
proof (cases "c \<le> 31 \<or> (127 \<le> c \<and> c \<le> 159)")
  case True
  then have "c div 16 < 16" "c mod 16 < 16" by auto
  then have "isHex (hexDigit (c div 16))" "isHex (hexDigit (c mod 16))"
    by (simp_all add: hexDigit_isHex)
  moreover have "isHex 48"
    by (simp add: isHex_def isDigit_def)
  ultimately show ?thesis
    by (simp add: escapeItem_def)
next
  case False
  then show ?thesis
    by (auto simp: escapeItem_def)
qed

lemma charValue_escapeItem: "charValue (escapeItem c) = c"
proof -
  have "c \<le> 31 \<or> (127 \<le> c \<and> c \<le> 159) \<Longrightarrow>
      16 * hexValue (hexDigit (c div 16)) + hexValue (hexDigit (c mod 16)) = c"
    by (subst hexValue_hexDigit, force)+ simp
  moreover have "hexValue 48 = 0"
    by (simp add: hexValue_def isDigit_def)
  ultimately show ?thesis
    by (auto simp: escapeItem_def)
qed

lemma renderString_escapeItems:
  "renderString (map escapeItem interior) = DQUOTE # jsonEscape interior @ [DQUOTE]"
  by (simp add: renderString_def jsonEscape_def comp_def renderChar_escapeItem)

lemma stringValue_escapeItems: "stringValue (map escapeItem interior) = interior"
  by (simp add: stringValue_def comp_def charValue_escapeItem)

lemma takeWhile_until: "c \<notin> set xs \<Longrightarrow> takeWhile (\<lambda>x. x \<noteq> c) (xs @ c # r) = xs"
  by (induction xs) auto

lemma dropWhile_until: "c \<notin> set xs \<Longrightarrow> dropWhile (\<lambda>x. x \<noteq> c) (xs @ c # r) = c # r"
  by (induction xs) auto

lemma backtickValue_found:
  assumes "list_all isWhiteSpace ws" "BACKTICK \<notin> set content"
  shows "backtickValue (ws @ BACKTICK # content @ BACKTICK # rest) = Some (content, rest)"
proof -
  have "\<not> isWhiteSpace BACKTICK"
    by (simp add: isWhiteSpace_def)
  then have "dropWhile isWhiteSpace (ws @ BACKTICK # content @ BACKTICK # rest) =
      dropWhile isWhiteSpace ws @ BACKTICK # content @ BACKTICK # rest"
    by (rule dropWhile_stop)
  moreover have "dropWhile isWhiteSpace ws = []"
    using assms(1) by (simp add: list_all_iff)
  moreover have "takeWhile (\<lambda>x. x \<noteq> BACKTICK) (content @ BACKTICK # rest) = content"
    using assms(2) by (rule takeWhile_until)
  moreover have "dropWhile (\<lambda>x. x \<noteq> BACKTICK) (content @ BACKTICK # rest) = BACKTICK # rest"
    using assms(2) by (rule dropWhile_until)
  ultimately show ?thesis
    by (simp add: backtickValue_def)
qed

lemma repair_occurrence:
  assumes "list_all isWhiteSpace ws" "BACKTICK \<notin> set content"
  shows "repairBackticks (COLON # ws @ BACKTICK # content @ BACKTICK # rest) =
    [COLON, 32, DQUOTE] @ jsonEscape content @ [DQUOTE] @ repairBackticks rest"
  by (simp add: backtickValue_found [OF assms])

lemma repair_no_colon: "COLON \<notin> set p \<Longrightarrow> repairBackticks (p @ r) = p @ repairBackticks r"
  by (induction p) auto

lemma repair_prefix:
  assumes "\<not> opensBacktick p" "p \<noteq> []" "\<not> isWhiteSpace (last p)" "last p \<noteq> COLON"
  shows "repairBackticks (p @ r) = p @ repairBackticks r"
  using assms
proof (induction p)
  case Nil
  then show ?case by simp
next
  case (Cons c p)
  show ?case
  proof (cases "p = []")
    case True
    with Cons.prems show ?thesis by simp
  next
    case False
    with Cons have ih: "repairBackticks (p @ r) = p @ repairBackticks r"
      by simp
    from False Cons.prems have lp: "last p \<in> set p" "\<not> isWhiteSpace (last p)"
      by simp_all
    then have "dropWhile isWhiteSpace (p @ r) = dropWhile isWhiteSpace p @ r"
      by (intro dropWhile_append1) auto
    moreover obtain x xs where d: "dropWhile isWhiteSpace p = x # xs"
      using lp by (cases "dropWhile isWhiteSpace p") (auto simp: dropWhile_eq_Nil_conv)
    moreover have "x \<noteq> BACKTICK" if "c = COLON"
      using Cons.prems(1) that d by simp
    ultimately have "backtickValue (p @ r) = None" if "c = COLON"
      using that by (simp add: backtickValue_def)
    with ih show ?thesis by simp
  qed
qed

lemma opensBacktick_snoc: "c \<noteq> BACKTICK \<Longrightarrow> opensBacktick (x @ [c]) = opensBacktick x"
proof (induction x)
  case Nil
  then show ?case by simp
next
  case (Cons d x)
  have "(case dropWhile isWhiteSpace (x @ [c]) of [] \<Rightarrow> False | e # r \<Rightarrow> e = BACKTICK) =
      (case dropWhile isWhiteSpace x of [] \<Rightarrow> False | e # r \<Rightarrow> e = BACKTICK)"
  proof (cases "dropWhile isWhiteSpace x")
    case Nil
    then have "\<forall>y\<in>set x. isWhiteSpace y"
      by (simp add: dropWhile_eq_Nil_conv)
    then have eq: "dropWhile isWhiteSpace (x @ [c]) = dropWhile isWhiteSpace [c]"
      by simp
    show ?thesis
      unfolding eq Nil using Cons.prems by simp
  next
    case (Cons e r)
    then have "\<not> isWhiteSpace e" "e \<in> set x"
      by (metis hd_dropWhile list.sel(1) list.distinct(1), metis list.set_intros(1) set_dropWhileD)
    then have eq: "dropWhile isWhiteSpace (x @ [c]) = dropWhile isWhiteSpace x @ [c]"
      by (intro dropWhile_append1) auto
    show ?thesis
      unfolding eq Cons by simp
  qed
  with Cons show ?case by simp
qed

lemma hasBacktickValue_snoc: "c \<noteq> BACKTICK \<Longrightarrow> hasBacktickValue (x @ [c]) = hasBacktickValue x"
proof (induction x)
  case Nil
  then show ?case by (simp add: backtickValue_def)
next
  case (Cons d x)
  have "backtickValue (x @ [c]) = None \<longleftrightarrow> backtickValue x = None"
  proof (cases "dropWhile isWhiteSpace x")
    case Nil
    then have "\<forall>y\<in>set x. isWhiteSpace y"
      by (simp add: dropWhile_eq_Nil_conv)
    then have eq: "dropWhile isWhiteSpace (x @ [c]) = dropWhile isWhiteSpace [c]"
      by simp
    show ?thesis
      unfolding backtickValue_def eq Nil using Cons.prems by simp
  next
    case (Cons e r)
    then have "\<not> isWhiteSpace e" "e \<in> set x"
      by (metis hd_dropWhile list.sel(1) list.distinct(1), metis list.set_intros(1) set_dropWhileD)
    then have eq: "dropWhile isWhiteSpace (x @ [c]) = dropWhile isWhiteSpace x @ [c]"
      by (intro dropWhile_append1) auto
    show ?thesis
      unfolding backtickValue_def eq Cons using \<open>c \<noteq> BACKTICK\<close> by simp
  qed
  with Cons show ?case by simp
qed

lemma hasBacktickValue_no_colon: "COLON \<notin> set w \<Longrightarrow> hasBacktickValue (w @ x) = hasBacktickValue x"
  by (induction w) auto

lemma renderMembers_append:
  "renderMembers (appendMembers a b) = renderMembers a @ 44 # renderMembers b"
  by (induction a) simp_all

lemma wfMembers_append: "wfMembers (appendMembers a b) \<longleftrightarrow> wfMembers a \<and> wfMembers b"
  by (induction a) auto

lemma memberList_append: "memberList (appendMembers a b) = memberList a @ memberList b"
  by (induction a) simp_all

lemma renderString_codeKey: "renderString codeKey = DQUOTE # js ''code'' @ [DQUOTE]"
  by (simp add: renderString_def codeKey_def js_def)

lemma render_codeTree:
  "render (codeTree before w1 w2 interior w4 after) =
     (LBRACE # (case before of None \<Rightarrow> [] | Some b \<Rightarrow> renderMembers b @ [44])) @
     (w1 @ renderString codeKey @ w2) @
     [COLON, 32, DQUOTE] @ jsonEscape interior @ [DQUOTE] @
     (w4 @ (case after of None \<Rightarrow> [] | Some a \<Rightarrow> 44 # renderMembers a) @ [RBRACE])"
  by (cases before; cases after)
    (simp_all add: codeTree_def renderMembers_append renderString_escapeItems)


lemma wfValue_codeTree:
  assumes "membersValid before" "membersValid after" "isJsonWs w1" "isJsonWs w2" "isJsonWs w4"
  shows "wfValue (codeTree before w1 w2 interior w4 after)"
proof -
  have k: "list_all wfChar codeKey"
    by (simp add: codeKey_def js_def)
  have i: "list_all wfChar (map escapeItem interior)"
    by (simp add: list_all_iff wfChar_escapeItem)
  have s: "isJsonWs [32]"
    by (simp add: isJsonWs_def)
  from assms k i s show ?thesis
    by (cases before; cases after) (simp_all add: codeTree_def membersValid_def wfMembers_append)
qed

lemma map_of_last_wins:
  assumes "k \<notin> fst ` set la"
  shows "map_of (rev (lb @ (k, x) # la)) k = Some x"
proof -
  have "map_of (rev la) k = None"
    using assms by (simp add: map_of_eq_None_iff)
  then show ?thesis
    by (simp add: map_add_def)
qed

lemma stringMember_codeTree:
  assumes "js ''code'' \<notin> set (memberKeys after)"
  shows "stringMember (codeTree before w1 w2 interior w4 after) (js ''code'') = Some interior"
proof -
  have k: "stringValue codeKey = js ''code''"
    by (simp add: stringValue_def codeKey_def comp_def)
  define lb where "lb = (case before of None \<Rightarrow> [] | Some b \<Rightarrow> memberList b)"
  define la where "la = (case after of None \<Rightarrow> [] | Some a \<Rightarrow> memberList a)"
  obtain ms where t: "codeTree before w1 w2 interior w4 after = JObject ms"
    and l: "memberList ms = lb @ (js ''code'', JString (map escapeItem interior)) # la"
    by (cases before; cases after)
      (auto simp: codeTree_def lb_def la_def memberList_append k)
  have "js ''code'' \<notin> fst ` set la"
    using assms by (cases after) (auto simp: la_def memberKeys_def)
  then have "map_of (rev (memberList ms)) (js ''code'') = Some (JString (map escapeItem interior))"
    unfolding l by (rule map_of_last_wins)
  then show ?thesis
    by (simp add: stringMember_def t stringValue_escapeItems)
qed


lemma cleanedText_codeReply:
  assumes "\<not> opensBacktick (membersText before)" "\<not> hasBacktickValue (membersText after)"
    and "isJsonWs w1" "isJsonWs w2" "isJsonWs w3" "isJsonWs w4"
    and "BACKTICK \<notin> set interior"
  shows "cleanedText (codeReply before w1 w2 w3 interior w4 after) =
    render (codeTree before w1 w2 interior w4 after)"
proof -
  define P1 where "P1 = LBRACE # (case before of None \<Rightarrow> [] | Some b \<Rightarrow> renderMembers b @ [44])"
  define P2 where "P2 = w1 @ renderString codeKey @ w2"
  define S where "S = w4 @ (case after of None \<Rightarrow> [] | Some a \<Rightarrow> 44 # renderMembers a) @ [RBRACE]"
  have raw: "codeReply before w1 w2 w3 interior w4 after =
      P1 @ P2 @ COLON # w3 @ BACKTICK # interior @ BACKTICK # S"
    by (simp add: codeReply_def P1_def P2_def S_def)
  have shape: "\<exists>mid. P1 @ P2 @ COLON # w3 @ BACKTICK # interior @ BACKTICK # S = LBRACE # mid @ [RBRACE]"
    by (simp add: P1_def S_def)
  then obtain mid where mid: "P1 @ P2 @ COLON # w3 @ BACKTICK # interior @ BACKTICK # S = LBRACE # mid @ [RBRACE]"
    by blast
  have "trim ([] @ (LBRACE # mid @ [RBRACE]) @ []) = LBRACE # mid @ [RBRACE]"
    by (rule trim_padded) (simp_all add: isWhiteSpace_def)
  then have t: "trim (LBRACE # mid @ [RBRACE]) = LBRACE # mid @ [RBRACE]"
    by simp
  have f: "\<not> startsWith (LBRACE # mid @ [RBRACE]) (js ''```json'')"
    "\<not> startsWith (LBRACE # mid @ [RBRACE]) (js ''```'')"
    by (simp_all add: startsWith_def js_def)
  have e: "\<not> endsWith (LBRACE # mid @ [RBRACE]) (js ''```'')"
    using endsWith_last [of "LBRACE # mid @ [RBRACE]" "js ''```''"] by (auto simp: js_def)
  have sf: "stripFences (codeReply before w1 w2 w3 interior w4 after) =
      P1 @ P2 @ COLON # w3 @ BACKTICK # interior @ BACKTICK # S"
    unfolding raw mid by (simp add: stripFences_def t f e)
  have b1: "\<not> opensBacktick P1"
  proof (cases before)
    case None
    then show ?thesis by (simp add: P1_def)
  next
    case (Some b)
    with assms(1) have "\<not> opensBacktick (renderMembers b @ [44])"
      by (simp add: opensBacktick_snoc membersText_def)
    with Some show ?thesis by (simp add: P1_def)
  qed
  have l1: "last P1 = LBRACE \<or> last P1 = 44"
    by (cases before) (auto simp: P1_def)
  then have l1': "\<not> isWhiteSpace (last P1)" "last P1 \<noteq> COLON"
    by (auto simp: isWhiteSpace_def)
  have ne1: "P1 \<noteq> []"
    by (simp add: P1_def)
  have c2: "COLON \<notin> set P2"
    using assms(3,4) by (auto simp: P2_def renderString_codeKey js_def isJsonWs_def list_all_iff)
  have bS: "\<not> hasBacktickValue S"
  proof (cases after)
    case None
    have "COLON \<notin> set (w4 @ [RBRACE])"
      using assms(6) by (auto simp: isJsonWs_def list_all_iff)
    from hasBacktickValue_no_colon [OF this, of "[]"] None show ?thesis
      by (simp add: S_def)
  next
    case (Some a)
    have "COLON \<notin> set (w4 @ [44])"
      using assms(6) by (auto simp: isJsonWs_def list_all_iff)
    from hasBacktickValue_no_colon [OF this, of "renderMembers a @ [RBRACE]"]
    have "hasBacktickValue S = hasBacktickValue (renderMembers a @ [RBRACE])"
      by (simp add: S_def Some)
    with assms(2) Some show ?thesis
      by (simp add: hasBacktickValue_snoc membersText_def)
  qed
  have rS: "repairBackticks S = S"
    using bS by (rule repairBackticks_unchanged)
  have w3: "list_all isWhiteSpace w3"
    by (rule jsonWs_whiteSpace [OF assms(5)])
  have "repairBackticks (P1 @ P2 @ COLON # w3 @ BACKTICK # interior @ BACKTICK # S) =
      P1 @ P2 @ [COLON, 32, DQUOTE] @ jsonEscape interior @ [DQUOTE] @ S"
    by (simp only: repair_prefix [OF b1 ne1 l1'] repair_no_colon [OF c2]
        repair_occurrence [OF w3 assms(7)] rS)
  then show ?thesis
    by (simp add: cleanedText_def sf render_codeTree P1_def P2_def S_def)
qed

lemma extractJson_codeReply:
  assumes "membersValid before" "membersValid after"
    and "\<not> opensBacktick (membersText before)" "\<not> hasBacktickValue (membersText after)"
    and "isJsonWs w1" "isJsonWs w2" "isJsonWs w3" "isJsonWs w4"
    and "BACKTICK \<notin> set interior"
  shows "extractJsonFromResponse (codeReply before w1 w2 w3 interior w4 after) =
    Inr (render (codeTree before w1 w2 interior w4 after))"
proof -
  have "isContainer (codeTree before w1 w2 interior w4 after)"
    by (simp add: codeTree_def Let_def)
  with wfValue_codeTree [OF assms(1,2,5,6,8)] cleanedText_codeReply [OF assms(3-9)]
  show ?thesis
    by (intro extractJson_cleaned_container)
qed

definition nestedObject :: jvalue where
  "nestedObject =
     JObject (MCons [] (map Plain (js ''a'')) [] [32]
       (JObject (MLast [] (map Plain (js ''b'')) [] [32] (JString [Plain RBRACE]) [])) []
       (MLast [32] (map Plain (js ''c'')) [] [32] (JString [Plain LBRACKET, Plain LBRACE]) []))"

lemma render_nestedObject: \<open>render nestedObject = js ''{"a": {"b": "}"}, "c": "[{"}''\<close>
  by (simp add: nestedObject_def renderString_def js_def)

lemma wf_nestedObject: "wfValue nestedObject" "isContainer nestedObject"
  by (simp_all add: nestedObject_def isJsonWs_def js_def)

text \<open>
  C4. The object of the example is returned whole. In general the loop passes over a
  string literal, whatever braces and brackets it holds, as a unit: it is after the
  literal in the state and with the counters it had before it. So for every valid JSON
  object or array, of any nesting and with any string literals in it, and for any text
  after it, the scan that starts at its first character ends at its last one, the
  structural close; and a reply that holds the value after prose without \<^verbatim>\<open>{\<close> and
  \<^verbatim>\<open>[\<close> and has no backtick is answered with exactly the value.
\<close>

theorem string_braces_not_counted:
  assumes "wfValue v" "isContainer v"
  shows \<open>extractJsonFromResponse (js ''{"a": "contains } and { chars", "b": 1}'') =
      Inr (js ''{"a": "contains } and { chars", "b": 1}'') \<and>
    (stringBody w \<longrightarrow>
      scanJsonEnd i b k False False (DQUOTE # w @ DQUOTE # ys) =
      scanJsonEnd (i + length w + 2) b k False False ys) \<and>
    scanJsonEnd i 0 0 False False (render v @ rest) = Some (i + length (render v) - 1) \<and>
    (BACKTICK \<notin> set (pre @ render v @ post) \<and> LBRACE \<notin> set pre \<and> LBRACKET \<notin> set pre \<longrightarrow>
      extractJsonFromResponse (pre @ render v @ post) = Inr (render v))\<close>
proof (intro conjI impI)
  show \<open>extractJsonFromResponse (js ''{"a": "contains } and { chars", "b": 1}'') =
      Inr (js ''{"a": "contains } and { chars", "b": 1}'')\<close>
    by (simp add: eval_defs)
next
  assume "stringBody w"
  then show "scanJsonEnd i b k False False (DQUOTE # w @ DQUOTE # ys) =
      scanJsonEnd (i + length w + 2) b k False False ys"
    by (rule scan_string)
next
  show "scanJsonEnd i 0 0 False False (render v @ rest) = Some (i + length (render v) - 1)"
    using assms by (rule scan_container)
next
  assume "BACKTICK \<notin> set (pre @ render v @ post) \<and> LBRACE \<notin> set pre \<and> LBRACKET \<notin> set pre"
  then show "extractJsonFromResponse (pre @ render v @ post) = Inr (render v)"
    using extractJson_in_prose [OF assms] by blast
qed

theorem string_braces_not_counted_witness:
  \<open>stringBody (js ''contains } and { chars'') \<and>
   scanJsonEnd 6 1 0 False False (DQUOTE # js ''contains } and { chars'' @ DQUOTE # js ''}'') = Some 30 \<and>
   wfValue nestedObject \<and> isContainer nestedObject \<and>
   scanJsonEnd 0 0 0 False False (js ''{"a": {"b": "}"}, "c": "[{"} and } more'') = Some 27 \<and>
   extractJsonFromResponse (js ''Reply: {"a": {"b": "}"}, "c": "[{"} and } more'') =
     Inr (js ''{"a": {"b": "}"}, "c": "[{"}'')\<close>
proof -
  have 1: \<open>stringBody (js ''contains } and { chars'')\<close>
    by (simp add: js_def)
  have 2: \<open>BACKTICK \<notin> set (js ''Reply: '' @ render nestedObject @ js '' and } more'') \<and>
      LBRACE \<notin> set (js ''Reply: '') \<and> LBRACKET \<notin> set (js ''Reply: '')\<close>
    unfolding render_nestedObject by (simp add: js_def)
  note general = string_braces_not_counted [OF wf_nestedObject]
  from general [where w = \<open>js ''contains } and { chars''\<close> and i = 6 and b = 1 and k = 0 and ys = \<open>js ''}''\<close>] 1
  have \<open>scanJsonEnd 6 1 0 False False (DQUOTE # js ''contains } and { chars'' @ DQUOTE # js ''}'') =
      scanJsonEnd (6 + length (js ''contains } and { chars'') + 2) 1 0 False False (js ''}'')\<close>
    by blast
  also have \<open>\<dots> = Some 30\<close>
    by (simp add: js_def)
  finally have 3: \<open>scanJsonEnd 6 1 0 False False
      (DQUOTE # js ''contains } and { chars'' @ DQUOTE # js ''}'') = Some 30\<close> .
  from general [where i = 0 and rest = \<open>js '' and } more''\<close>]
  have 4: \<open>scanJsonEnd 0 0 0 False False (js ''{"a": {"b": "}"}, "c": "[{"} and } more'') = Some 27\<close>
    by (simp add: render_nestedObject js_def)
  from general [where pre = \<open>js ''Reply: ''\<close> and post = \<open>js '' and } more''\<close>] 2
  have 5: \<open>extractJsonFromResponse (js ''Reply: {"a": {"b": "}"}, "c": "[{"} and } more'') =
      Inr (js ''{"a": {"b": "}"}, "c": "[{"}'')\<close>
    by (simp add: render_nestedObject js_def)
  from 1 3 4 5 wf_nestedObject show ?thesis by blast
qed

definition sampleObject :: jvalue where
  "sampleObject =
     JObject (MLast [] [Plain 97] [] [32]
       (JArray (ECons [] (JNumber (JNum False [49] None None)) []
                 (ELast [32] (JNumber (JNum False [50] None None)) []))) [])"

lemma render_sampleObject: \<open>render sampleObject = js ''{"a": [1, 2]}''\<close>
  by (simp add: sampleObject_def renderString_def js_def)

lemma wf_sampleObject: "wfValue sampleObject" "isContainer sampleObject"
  by (simp_all add: sampleObject_def isJsonWs_def isDigits_def isDigit_def)

lemma sampleObject_no_backtick: "BACKTICK \<notin> set (render sampleObject)"
  unfolding render_sampleObject by (simp add: js_def)

text \<open>
  C3 as amended. A valid JSON text whose value is an object or an array, and in which the
  pattern of the backtick repair matches nowhere, is returned without its surrounding
  white space and otherwise unchanged.
\<close>

theorem valid_json_returned_unchanged:
  assumes "wfValue v" "isContainer v" "isJsonWs w" "isJsonWs w'"
    and "\<not> hasBacktickValue (w @ render v @ w')"
  shows "extractJsonFromResponse (w @ render v @ w') = Inr (render v) \<and>
    trim (w @ render v @ w') = render v"
proof -
  have "cleanedText (w @ render v @ w') = render v"
    using assms(2-5) by (rule cleanedText_padded_container)
  with assms(1,2) have "extractJsonFromResponse (w @ render v @ w') = Inr (render v)"
    by (rule extractJson_cleaned_container)
  moreover have "trim (w @ render v @ w') = render v"
    using assms(2-4) by (rule trim_container)
  ultimately show ?thesis by simp
qed

theorem valid_json_returned_unchanged_witness:
  \<open>extractJsonFromResponse (js '' {"a": [1, 2]}'' @ [NEWLINE]) = Inr (js ''{"a": [1, 2]}'') \<and>
   trim (js '' {"a": [1, 2]}'' @ [NEWLINE]) = js ''{"a": [1, 2]}''\<close>
proof -
  have ws: "isJsonWs [32]" "isJsonWs [NEWLINE]"
    by (simp_all add: isJsonWs_def)
  have "BACKTICK \<notin> set ([32] @ render sampleObject @ [NEWLINE])"
    using sampleObject_no_backtick by simp
  then have nb: "\<not> hasBacktickValue ([32] @ render sampleObject @ [NEWLINE])"
    by (rule no_backtick_no_value)
  from valid_json_returned_unchanged [OF wf_sampleObject ws nb] show ?thesis
    by (simp add: render_sampleObject js_def)
qed

text \<open>
  C3 as stated fails. The JSON text \<^verbatim>\<open>42\<close> has no fence and no backtick, and the extractor
  throws on it. The JSON text \<^verbatim>\<open>{"a": "b: `c`"}\<close> has its backticks inside a string, and
  the extractor returns another text.
\<close>

theorem valid_json_counterexample:
  \<open>wfValue (JNumber (JNum False (js ''42'') None None)) \<and>
   render (JNumber (JNum False (js ''42'') None None)) = js ''42'' \<and>
   BACKTICK \<notin> set (js ''42'') \<and>
   extractJsonFromResponse (js ''42'') = Inl NoJsonFound \<and>
   wfValue (JObject (MLast [] [Plain 97] [] [32] (JString (map Plain (js ''b: `c`''))) [])) \<and>
   render (JObject (MLast [] [Plain 97] [] [32] (JString (map Plain (js ''b: `c`''))) [])) =
     js ''{"a": "b: `c`"}'' \<and>
   extractJsonFromResponse (js ''{"a": "b: `c`"}'') = Inr (js ''{"a": "b: "c""}'')\<close>
proof -
  have 1: \<open>extractJsonFromResponse (js ''42'') = Inl NoJsonFound\<close>
    by (simp add: eval_defs)
  have 2: \<open>extractJsonFromResponse (js ''{"a": "b: `c`"}'') = Inr (js ''{"a": "b: "c""}'')\<close>
    by (simp add: eval_defs)
  have 3: \<open>wfValue (JNumber (JNum False (js ''42'') None None)) \<and>
   render (JNumber (JNum False (js ''42'') None None)) = js ''42'' \<and>
   BACKTICK \<notin> set (js ''42'')\<close>
    by (simp add: js_def isDigits_def isDigit_def)
  have 4: \<open>wfValue (JObject (MLast [] [Plain 97] [] [32] (JString (map Plain (js ''b: `c`''))) [])) \<and>
   render (JObject (MLast [] [Plain 97] [] [32] (JString (map Plain (js ''b: `c`''))) [])) =
     js ''{"a": "b: `c`"}''\<close>
    by (simp add: js_def isJsonWs_def renderString_def)
  from 1 2 3 4 show ?thesis by blast
qed

text \<open>
  C5 as amended. For a valid JSON text \<open>T\<close> whose value is an object or an array, and in
  which the pattern of the backtick repair matches nowhere, the extractor applied to
  \<open>T\<close> between the fence \<^verbatim>\<open>```json\<close> with a newline and a newline with \<^verbatim>\<open>```\<close> returns
  \<open>T\<close> without its surrounding white space.
\<close>

theorem fenced_json_returned:
  assumes "wfValue v" "isContainer v" "isJsonWs w" "isJsonWs w'"
    and "\<not> hasBacktickValue (w @ render v @ w')"
  shows "extractJsonFromResponse (js ''```json'' @ NEWLINE # (w @ render v @ w') @ NEWLINE # js ''```'') =
      Inr (render v) \<and>
    trim (w @ render v @ w') = render v"
proof -
  have "cleanedText (js ''```json'' @ NEWLINE # (w @ render v @ w') @ NEWLINE # js ''```'') = render v"
    using assms(2-5) by (rule cleanedText_fenced_container)
  with assms(1,2)
  have "extractJsonFromResponse (js ''```json'' @ NEWLINE # (w @ render v @ w') @ NEWLINE # js ''```'') =
      Inr (render v)"
    by (rule extractJson_cleaned_container)
  moreover have "trim (w @ render v @ w') = render v"
    using assms(2-4) by (rule trim_container)
  ultimately show ?thesis by simp
qed

theorem fenced_json_returned_witness:
  \<open>extractJsonFromResponse (js ''```json'' @ NEWLINE # js ''{"a": [1, 2]}'' @ NEWLINE # js ''```'') =
     Inr (js ''{"a": [1, 2]}'')\<close>
proof -
  have ws: "isJsonWs []"
    by (simp add: isJsonWs_def)
  have "BACKTICK \<notin> set ([] @ render sampleObject @ [])"
    using sampleObject_no_backtick by simp
  then have nb: "\<not> hasBacktickValue ([] @ render sampleObject @ [])"
    by (rule no_backtick_no_value)
  from fenced_json_returned [OF wf_sampleObject ws ws nb] show ?thesis
    by (simp add: render_sampleObject)
qed

text \<open>
  C5 as stated fails. For the JSON text \<^verbatim>\<open>7\<close> the extractor throws, and for the JSON text
  \<^verbatim>\<open>{}\<close> followed by a space it returns \<^verbatim>\<open>{}\<close> without the space.
\<close>

theorem fenced_json_counterexample:
  \<open>wfValue (JNumber (JNum False (js ''7'') None None)) \<and>
   render (JNumber (JNum False (js ''7'') None None)) = js ''7'' \<and>
   extractJsonFromResponse (js ''```json'' @ NEWLINE # js ''7'' @ NEWLINE # js ''```'') = Inl NoJsonFound \<and>
   wfValue (JEmptyObject []) \<and> isJsonWs [32] \<and>
   render (JEmptyObject []) @ [32] = js ''{} '' \<and>
   extractJsonFromResponse (js ''```json'' @ NEWLINE # js ''{} '' @ NEWLINE # js ''```'') = Inr (js ''{}'') \<and>
   js ''{}'' \<noteq> js ''{} ''\<close>
proof -
  have 1: \<open>extractJsonFromResponse (js ''```json'' @ NEWLINE # js ''7'' @ NEWLINE # js ''```'') = Inl NoJsonFound\<close>
    by (simp add: eval_defs)
  have 2: \<open>extractJsonFromResponse (js ''```json'' @ NEWLINE # js ''{} '' @ NEWLINE # js ''```'') = Inr (js ''{}'')\<close>
    by (simp add: eval_defs)
  have 3: \<open>wfValue (JNumber (JNum False (js ''7'') None None)) \<and>
   render (JNumber (JNum False (js ''7'') None None)) = js ''7'' \<and>
   wfValue (JEmptyObject []) \<and> isJsonWs [32] \<and>
   render (JEmptyObject []) @ [32] = js ''{} '' \<and> js ''{}'' \<noteq> js ''{} ''\<close>
    by (simp add: js_def isDigits_def isDigit_def isJsonWs_def)
  from 1 2 3 show ?thesis by blast
qed

text \<open>
  Where the inline extraction of \<^verbatim>\<open>generateInstrumentationPlan\<close> and
  \<^verbatim>\<open>extractJsonFromResponse\<close> give the same text: among others on a reply that holds a
  valid JSON object or array between prose without \<^verbatim>\<open>{\<close> and \<^verbatim>\<open>[\<close> and any trailing
  text, with no backtick in the reply; with white space around the value and no match
  of the backtick pattern; without backticks inside a \<^verbatim>\<open>```json\<close> fence.
\<close>

lemma inline_extraction_agrees:
  assumes "wfValue v" "isContainer v"
  shows "(BACKTICK \<notin> set (pre @ render v @ post) \<and> LBRACE \<notin> set pre \<and> LBRACKET \<notin> set pre \<longrightarrow>
      extractJsonFromResponse (pre @ render v @ post) = Inr (planJsonText (pre @ render v @ post)) \<and>
      planJsonText (pre @ render v @ post) = render v) \<and>
    (isJsonWs w \<and> isJsonWs w' \<and> \<not> hasBacktickValue (w @ render v @ w') \<longrightarrow>
      extractJsonFromResponse (w @ render v @ w') = Inr (planJsonText (w @ render v @ w')) \<and>
      planJsonText (w @ render v @ w') = render v) \<and>
    (isJsonWs w \<and> isJsonWs w' \<and> BACKTICK \<notin> set (render v) \<longrightarrow>
      extractJsonFromResponse (js ''```json'' @ NEWLINE # (w @ render v @ w') @ NEWLINE # js ''```'') =
        Inr (planJsonText (js ''```json'' @ NEWLINE # (w @ render v @ w') @ NEWLINE # js ''```'')) \<and>
      planJsonText (js ''```json'' @ NEWLINE # (w @ render v @ w') @ NEWLINE # js ''```'') = render v)"
proof (intro conjI impI)
  assume a: "BACKTICK \<notin> set (pre @ render v @ post) \<and> LBRACE \<notin> set pre \<and> LBRACKET \<notin> set pre"
  then have p: "planJsonText (pre @ render v @ post) = render v"
    using planJsonText_in_prose [OF assms] by blast
  from a have "extractJsonFromResponse (pre @ render v @ post) = Inr (render v)"
    using extractJson_in_prose [OF assms] by blast
  with p show "extractJsonFromResponse (pre @ render v @ post) = Inr (planJsonText (pre @ render v @ post))"
    by simp
  from p show "planJsonText (pre @ render v @ post) = render v" .
next
  assume a: "isJsonWs w \<and> isJsonWs w' \<and> \<not> hasBacktickValue (w @ render v @ w')"
  then have p: "planJsonText (w @ render v @ w') = render v"
    using planJsonText_container [OF assms] by blast
  from a have "cleanedText (w @ render v @ w') = render v"
    using cleanedText_padded_container [OF assms(2)] by blast
  with assms have "extractJsonFromResponse (w @ render v @ w') = Inr (render v)"
    by (rule extractJson_cleaned_container)
  with p show "extractJsonFromResponse (w @ render v @ w') = Inr (planJsonText (w @ render v @ w'))"
    by simp
  from p show "planJsonText (w @ render v @ w') = render v" .
next
  assume a: "isJsonWs w \<and> isJsonWs w' \<and> BACKTICK \<notin> set (render v)"
  then have p: "planJsonText (js ''```json'' @ NEWLINE # (w @ render v @ w') @ NEWLINE # js ''```'') = render v"
    using planJsonText_fenced [OF assms] by blast
  from a have "BACKTICK \<notin> set (w @ render v @ w')"
    by (auto simp: isJsonWs_def list_all_iff)
  then have "\<not> hasBacktickValue (w @ render v @ w')"
    by (rule no_backtick_no_value)
  with a have "cleanedText (js ''```json'' @ NEWLINE # (w @ render v @ w') @ NEWLINE # js ''```'') = render v"
    using cleanedText_fenced_container [OF assms(2)] by blast
  with assms have "extractJsonFromResponse (js ''```json'' @ NEWLINE # (w @ render v @ w') @ NEWLINE # js ''```'') =
      Inr (render v)"
    by (rule extractJson_cleaned_container)
  with p show "extractJsonFromResponse (js ''```json'' @ NEWLINE # (w @ render v @ w') @ NEWLINE # js ''```'') =
        Inr (planJsonText (js ''```json'' @ NEWLINE # (w @ render v @ w') @ NEWLINE # js ''```''))"
    by simp
  from p show "planJsonText (js ''```json'' @ NEWLINE # (w @ render v @ w') @ NEWLINE # js ''```'') = render v" .
qed

subsection \<open>Outside the string literals of a valid JSON text\<close>

lemma outside_plain:
  "DQUOTE \<notin> set xs \<Longrightarrow>
     outsideStrings (False, False) (xs @ r) = xs @ outsideStrings (False, False) r"
  by (induction xs) (simp_all add: readStep_pair)

lemma outside_chars:
  "list_all wfChar cs \<Longrightarrow>
     outsideStrings (True, False) (concat (map renderChar cs) @ r) = outsideStrings (True, False) r"
proof (induction cs)
  case Nil
  show ?case by simp
next
  case (Cons c cs)
  then have ih: "outsideStrings (True, False) (concat (map renderChar cs) @ r) =
      outsideStrings (True, False) r"
    by simp
  show ?case
  proof (cases c)
    case (Plain x)
    with Cons.prems ih show ?thesis by (simp add: readStep_pair)
  next
    case (Escape x)
    with ih show ?thesis by (simp add: readStep_pair)
  next
    case (Unicode a b c d)
    with Cons.prems have "isHex a" "isHex b" "isHex c" "isHex d"
      by simp_all
    then have "a \<noteq> BACKSLASH \<and> a \<noteq> DQUOTE" "b \<noteq> BACKSLASH \<and> b \<noteq> DQUOTE"
      "c \<noteq> BACKSLASH \<and> c \<noteq> DQUOTE" "d \<noteq> BACKSLASH \<and> d \<noteq> DQUOTE"
      by (simp_all add: isHex_plain)
    with Unicode ih show ?thesis by (simp add: readStep_pair)
  qed
qed

lemma outside_string:
  "list_all wfChar cs \<Longrightarrow>
     outsideStrings (False, False) (renderString cs @ r) = outsideStrings (False, False) r"
  using outside_chars [of cs "DQUOTE # r"] by (simp add: renderString_def readStep_pair)

lemma outside_ws:
  "isJsonWs w \<Longrightarrow> outsideStrings (False, False) (w @ r) = w @ outsideStrings (False, False) r"
  by (rule outside_plain) (auto simp: isJsonWs_def list_all_iff)

lemma ws_outside: "isJsonWs w \<Longrightarrow> set w \<subseteq> Collect jsonOutsideChar"
  by (auto simp: isJsonWs_def list_all_iff jsonOutsideChar_def)

lemma digits_outside: "isDigits ds \<Longrightarrow> set ds \<subseteq> Collect jsonOutsideChar \<and> DQUOTE \<notin> set ds"
  by (auto simp: isDigits_def list_all_iff jsonOutsideChar_def isDigit_def)

lemma number_outside:
  assumes "wfNumber n"
  shows "set (renderNumber n) \<subseteq> Collect jsonOutsideChar \<and> DQUOTE \<notin> set (renderNumber n)"
proof (cases n)
  case (JNum negative whole fraction exponent)
  have m: "jsonOutsideChar 45" "jsonOutsideChar 43" "jsonOutsideChar 46" "jsonOutsideChar 101"
    "jsonOutsideChar 69"
    by (simp_all add: jsonOutsideChar_def js_def)
  from assms JNum have "isDigits whole" by simp
  note w = digits_outside [OF this]
  have f: "set (case fraction of None \<Rightarrow> [] | Some f \<Rightarrow> 46 # f) \<subseteq> Collect jsonOutsideChar \<and>
      DQUOTE \<notin> set (case fraction of None \<Rightarrow> [] | Some f \<Rightarrow> 46 # f)"
    using assms JNum m digits_outside by (cases fraction) auto
  have e: "set (case exponent of None \<Rightarrow> [] | Some (e, sign, ds) \<Rightarrow> e # sign @ ds) \<subseteq> Collect jsonOutsideChar \<and>
      DQUOTE \<notin> set (case exponent of None \<Rightarrow> [] | Some (e, sign, ds) \<Rightarrow> e # sign @ ds)"
    using assms JNum m digits_outside by (cases exponent) auto
  from w f e m show ?thesis
    unfolding JNum renderNumber.simps by auto
qed

lemma outside_value:
  "wfValue v \<Longrightarrow>
     set (outsideStrings (False, False) (render v @ r)) \<subseteq>
       Collect jsonOutsideChar \<union> set (outsideStrings (False, False) r)"
  and outside_elements:
  "wfElements es \<Longrightarrow>
     set (outsideStrings (False, False) (renderElements es @ r)) \<subseteq>
       Collect jsonOutsideChar \<union> set (outsideStrings (False, False) r)"
  and outside_members:
  "wfMembers ms \<Longrightarrow>
     set (outsideStrings (False, False) (renderMembers ms @ r)) \<subseteq>
       Collect jsonOutsideChar \<union> set (outsideStrings (False, False) r)"
proof (induction v and es and ms arbitrary: r and r and r)
  case JNull
  show ?case by (simp add: js_def readStep_pair jsonOutsideChar_def)
next
  case JTrue
  show ?case by (simp add: js_def readStep_pair jsonOutsideChar_def)
next
  case JFalse
  show ?case by (simp add: js_def readStep_pair jsonOutsideChar_def)
next
  case (JNumber n)
  then have "set (renderNumber n) \<subseteq> Collect jsonOutsideChar \<and> DQUOTE \<notin> set (renderNumber n)"
    by (simp add: number_outside)
  then show ?case by (auto simp: outside_plain)
next
  case (JString cs)
  then show ?case by (simp add: outside_string)
next
  case (JEmptyArray w)
  then show ?case
    using ws_outside [of w] by (auto simp: outside_ws readStep_pair jsonOutsideChar_def js_def)
next
  case (JArray es)
  then have "wfElements es" by simp
  from JArray.IH [OF this, of "RBRACKET # r"] show ?case
    by (auto simp: readStep_pair jsonOutsideChar_def js_def)
next
  case (JEmptyObject w)
  then show ?case
    using ws_outside [of w] by (auto simp: outside_ws readStep_pair jsonOutsideChar_def js_def)
next
  case (JObject ms)
  then have "wfMembers ms" by simp
  from JObject.IH [OF this, of "RBRACE # r"] show ?case
    by (auto simp: readStep_pair jsonOutsideChar_def js_def)
next
  case (ELast w v w')
  then have wf: "isJsonWs w" "wfValue v" "isJsonWs w'"
    by simp_all
  from ELast.IH [OF wf(2), of "w' @ r"] ws_outside [OF wf(1)] ws_outside [OF wf(3)]
  show ?case
    by (auto simp: outside_ws wf)
next
  case (ECons w v w' es)
  then have wf: "isJsonWs w" "wfValue v" "isJsonWs w'" "wfElements es"
    by simp_all
  have c: "jsonOutsideChar 44"
    by (simp add: jsonOutsideChar_def js_def)
  from ECons.IH(1) [OF wf(2), of "w' @ 44 # renderElements es @ r"] ECons.IH(2) [OF wf(4), of r]
    ws_outside [OF wf(1)] ws_outside [OF wf(3)] c
  show ?case
    by (auto simp: outside_ws wf readStep_pair)
next
  case (MLast w key w1 w2 v w')
  then have wf: "isJsonWs w" "list_all wfChar key" "isJsonWs w1" "isJsonWs w2" "wfValue v" "isJsonWs w'"
    by simp_all
  have c: "jsonOutsideChar COLON"
    by (simp add: jsonOutsideChar_def js_def)
  from MLast.IH [OF wf(5), of "w' @ r"]
    ws_outside [OF wf(1)] ws_outside [OF wf(3)] ws_outside [OF wf(4)] ws_outside [OF wf(6)] c
  show ?case
    by (auto simp: outside_ws outside_string wf readStep_pair)
next
  case (MCons w key w1 w2 v w' ms)
  then have wf: "isJsonWs w" "list_all wfChar key" "isJsonWs w1" "isJsonWs w2" "wfValue v" "isJsonWs w'"
    "wfMembers ms"
    by simp_all
  have c: "jsonOutsideChar COLON" "jsonOutsideChar 44"
    by (simp_all add: jsonOutsideChar_def js_def)
  from MCons.IH(1) [OF wf(5), of "w' @ 44 # renderMembers ms @ r"] MCons.IH(2) [OF wf(7), of r]
    ws_outside [OF wf(1)] ws_outside [OF wf(3)] ws_outside [OF wf(4)] ws_outside [OF wf(6)] c
  show ?case
    by (auto simp: outside_ws outside_string wf readStep_pair)
qed

lemma valid_json_outside:
  assumes "isJsonWs w" "wfValue v" "isJsonWs w'"
  shows "set (outsideStrings (False, False) (w @ render v @ w')) \<subseteq> Collect jsonOutsideChar"
proof -
  from outside_ws [OF assms(3), of "[]"] have "outsideStrings (False, False) w' = w'"
    by simp
  with outside_value [OF assms(2), of w'] ws_outside [OF assms(1)] ws_outside [OF assms(3)]
  show ?thesis
    by (auto simp: outside_ws [OF assms(1)])
qed


lemma code_value_repaired:
  assumes "membersValid before" "membersValid after"
    and "\<not> opensBacktick (membersText before)" "\<not> hasBacktickValue (membersText after)"
    and "isJsonWs w1" "isJsonWs w2" "isJsonWs w3" "isJsonWs w4"
    and "BACKTICK \<notin> set interior" "js ''code'' \<notin> set (memberKeys after)"
  shows "extractJsonFromResponse (codeReply before w1 w2 w3 interior w4 after) =
      Inr (render (codeTree before w1 w2 interior w4 after)) \<and>
    wfValue (codeTree before w1 w2 interior w4 after) \<and>
    stringMember (codeTree before w1 w2 interior w4 after) (js ''code'') = Some interior"
  using extractJson_codeReply [OF assms(1-9)] wfValue_codeTree [OF assms(1,2,5,6,8)]
    stringMember_codeTree [OF assms(10)]
  by simp

lemma jsonEscape_table:
  "jsonEscape content =
     concat (map (\<lambda>c.
       if c = BACKSLASH then [BACKSLASH, BACKSLASH]
       else if c = DQUOTE then [BACKSLASH, DQUOTE]
       else if c = 8 then [BACKSLASH, 98]
       else if c = 12 then [BACKSLASH, 102]
       else if c = 10 then [BACKSLASH, 110]
       else if c = 13 then [BACKSLASH, 114]
       else if c = 9 then [BACKSLASH, 116]
       else if c \<le> 31 \<or> (127 \<le> c \<and> c \<le> 159)
         then [BACKSLASH, 117, 48, 48, hexDigit (c div 16), hexDigit (c mod 16)]
       else [c]) content)"
proof -
  have "\<And>c. (if inEscapeClass c then escapeChar c else [c]) =
      (if c = BACKSLASH then [BACKSLASH, BACKSLASH]
       else if c = DQUOTE then [BACKSLASH, DQUOTE]
       else if c = 8 then [BACKSLASH, 98]
       else if c = 12 then [BACKSLASH, 102]
       else if c = 10 then [BACKSLASH, 110]
       else if c = 13 then [BACKSLASH, 114]
       else if c = 9 then [BACKSLASH, 116]
       else if c \<le> 31 \<or> (127 \<le> c \<and> c \<le> 159)
         then [BACKSLASH, 117, 48, 48, hexDigit (c div 16), hexDigit (c mod 16)]
       else [c])"
    by (auto simp: inEscapeClass_def escapeChar_def unicodeEscape_byte)
  then show ?thesis
    by (simp add: jsonEscape_def)
qed

lemma code_value_repaired_example:
  \<open>codeReply None [] [] [32] codeInterior [] None =
     js ''{"code": `const x = "a";'' @ NEWLINE # js '' return x;`}'' \<and>
   extractJsonFromResponse (js ''{"code": `const x = "a";'' @ NEWLINE # js '' return x;`}'') =
     Inr (js ''{"code": "const x = '' @ [BACKSLASH] @ js ''"a'' @ [BACKSLASH] @ js ''";'' @
          [BACKSLASH] @ js ''n return x;"}'') \<and>
   wfValue (codeTree None [] [] codeInterior [] None) \<and>
   stringMember (codeTree None [] [] codeInterior [] None) (js ''code'') = Some codeInterior\<close>
proof -
  have r: \<open>codeReply None [] [] [32] codeInterior [] None =
      js ''{"code": `const x = "a";'' @ NEWLINE # js '' return x;`}''\<close>
    by (simp add: codeReply_def codeInterior_def renderString_codeKey js_def)
  have t: \<open>render (codeTree None [] [] codeInterior [] None) =
      js ''{"code": "const x = '' @ [BACKSLASH] @ js ''"a'' @ [BACKSLASH] @ js ''";'' @
          [BACKSLASH] @ js ''n return x;"}''\<close>
    by (simp add: render_codeTree renderString_codeKey codeInterior_def jsonEscape_def
        inEscapeClass_def escapeChar_def js_def)
  have "extractJsonFromResponse (codeReply None [] [] [32] codeInterior [] None) =
        Inr (render (codeTree None [] [] codeInterior [] None)) \<and>
     wfValue (codeTree None [] [] codeInterior [] None) \<and>
     stringMember (codeTree None [] [] codeInterior [] None) (js ''code'') = Some codeInterior"
    by (rule code_value_repaired)
      (simp_all add: membersValid_def membersText_def isJsonWs_def codeInterior_def memberKeys_def js_def)
  then show ?thesis
    using r t by simp
qed

text \<open>
  C2. The pattern of line 1053 is applied to the whole text, also inside string
  literals. The reply below is a JSON object but for its \<^verbatim>\<open>code\<close> value, which is written
  between backticks and holds a double quote and a newline; its member \<^verbatim>\<open>note\<close> is the
  valid string \<^verbatim>\<open>"see: `x`"\<close>. The pattern matches inside that string first, the quotes
  it puts there end the string early, and the text that is returned is not JSON: the
  letter \<^verbatim>\<open>x\<close> is outside its string literals.
\<close>

theorem repair_rewrites_inside_strings:
  \<open>wfMembers noteMember \<and>
   codeReply (Some noteMember) [32] [] [32] codeInterior [] None =
     js ''{"note": "see: `x`", "code": `const x = "a";'' @ NEWLINE # js '' return x;`}'' \<and>
   extractJsonFromResponse
     (js ''{"note": "see: `x`", "code": `const x = "a";'' @ NEWLINE # js '' return x;`}'') =
     Inr (js ''{"note": "see: "x"", "code": "const x = '' @ [BACKSLASH] @ js ''"a'' @ [BACKSLASH] @
          js ''";'' @ [BACKSLASH] @ js ''n return x;"}'') \<and>
   \<not> (\<exists>w v w'. isJsonWs w \<and> wfValue v \<and> isJsonWs w' \<and>
        js ''{"note": "see: "x"", "code": "const x = '' @ [BACKSLASH] @ js ''"a'' @ [BACKSLASH] @
          js ''";'' @ [BACKSLASH] @ js ''n return x;"}'' = w @ render v @ w')\<close>
proof -
  define returned where \<open>returned =
    js ''{"note": "see: "x"", "code": "const x = '' @ [BACKSLASH] @ js ''"a'' @ [BACKSLASH] @
      js ''";'' @ [BACKSLASH] @ js ''n return x;"}''\<close>
  have 1: "wfMembers noteMember"
    by (simp add: noteMember_def isJsonWs_def js_def)
  have 2: \<open>codeReply (Some noteMember) [32] [] [32] codeInterior [] None =
      js ''{"note": "see: `x`", "code": `const x = "a";'' @ NEWLINE # js '' return x;`}''\<close>
    by (simp add: codeReply_def noteMember_def codeInterior_def codeKey_def renderString_def js_def)
  have 3: \<open>extractJsonFromResponse
      (js ''{"note": "see: `x`", "code": `const x = "a";'' @ NEWLINE # js '' return x;`}'') =
      Inr returned\<close>
    unfolding returned_def by (simp add: eval_defs)
  have x: "120 \<in> set (outsideStrings (False, False) returned)"
    unfolding returned_def by (simp add: js_def readStep_pair)
  have "\<not> jsonOutsideChar 120"
    by (simp add: jsonOutsideChar_def js_def isDigit_def)
  with x have "\<not> set (outsideStrings (False, False) returned) \<subseteq> Collect jsonOutsideChar"
    by blast
  then have 4: "\<not> (\<exists>w v w'. isJsonWs w \<and> wfValue v \<and> isJsonWs w' \<and> returned = w @ render v @ w')"
    using valid_json_outside by metis
  from 1 2 3 4 show ?thesis
    unfolding returned_def by blast
qed

text \<open>
  C10. \<^verbatim>\<open>generateInstrumentationPlan\<close> does not call \<^verbatim>\<open>extractJsonFromResponse\<close>, as the
  other callers do (lines 769, 940, 1016); its inline code has no backtick repair. On a
  plan reply with a value between backticks the shared routine returns the repaired
  text, and the inline code returns the reply as it came, which is not JSON (a backtick
  is outside its string literals). On a reply without JSON the shared routine throws
  and the inline code hands the reply on; on \<^verbatim>\<open>[}{]\<close> the two counters of the shared
  routine are both zero at the end and the single counter of the inline code after two
  characters.
\<close>

theorem inline_extraction_misses_repair:
  \<open>extractJsonFromResponse (js ''{"transactions": [], "spans": [], "notes": `none`}'') =
     Inr (js ''{"transactions": [], "spans": [], "notes": "none"}'') \<and>
   planJsonText (js ''{"transactions": [], "spans": [], "notes": `none`}'') =
     js ''{"transactions": [], "spans": [], "notes": `none`}'' \<and>
   \<not> (\<exists>w v w'. isJsonWs w \<and> wfValue v \<and> isJsonWs w' \<and>
        js ''{"transactions": [], "spans": [], "notes": `none`}'' = w @ render v @ w') \<and>
   extractJsonFromResponse (js ''no plan'') = Inl NoJsonFound \<and>
   planJsonText (js ''no plan'') = js ''no plan'' \<and>
   extractJsonFromResponse (js ''[}{]'') = Inr (js ''[}{]'') \<and>
   planJsonText (js ''[}{]'') = js ''[}''\<close>
proof -
  define reply where \<open>reply = js ''{"transactions": [], "spans": [], "notes": `none`}''\<close>
  have 1: \<open>extractJsonFromResponse reply =
      Inr (js ''{"transactions": [], "spans": [], "notes": "none"}'')\<close>
    unfolding reply_def by (simp add: eval_defs)
  have 2: "planJsonText reply = reply"
    unfolding reply_def by (simp add: eval_defs planJsonText_def)
  have "BACKTICK \<in> set (outsideStrings (False, False) reply)"
    unfolding reply_def by (simp add: js_def readStep_pair)
  moreover have "\<not> jsonOutsideChar BACKTICK"
    by (simp add: jsonOutsideChar_def js_def isDigit_def)
  ultimately have "\<not> set (outsideStrings (False, False) reply) \<subseteq> Collect jsonOutsideChar"
    by blast
  then have 3: "\<not> (\<exists>w v w'. isJsonWs w \<and> wfValue v \<and> isJsonWs w' \<and> reply = w @ render v @ w')"
    using valid_json_outside by metis
  have 4: \<open>extractJsonFromResponse (js ''no plan'') = Inl NoJsonFound \<and>
      planJsonText (js ''no plan'') = js ''no plan'' \<and>
      extractJsonFromResponse (js ''[}{]'') = Inr (js ''[}{]'') \<and>
      planJsonText (js ''[}{]'') = js ''[}''\<close>
    by (simp add: eval_defs planJsonText_def)
  from 1 2 3 4 show ?thesis
    unfolding reply_def by blast
qed

section \<open>Properties of the span extractor\<close>

lemma name_codeBlockSpan [simp]: "name (codeBlockSpan text n) = n"
  by (simp add: codeBlockSpan_def)

lemma names_codeBlockSpans:
  "map name (codeBlockSpans text) = filter (\<lambda>n. strIncludes n [46]) (codeBlockMatches text)"
  by (simp add: codeBlockSpans_def comp_def)

lemma explicitStep_cases:
  "explicitStep tx spans m = spans \<or>
   (explicitStep tx spans m = spans @ [explicitSpan tx (toLowerCase m)] \<and>
    toLowerCase m \<notin> name ` set spans)"
  by (auto simp: explicitStep_def Let_def list_ex_iff)

lemma foldl_explicitStep:
  "\<exists>added. foldl (explicitStep tx) spans ms = spans @ added \<and>
     length added \<le> length ms \<and>
     (\<forall>s\<in>set added. \<exists>n. s = explicitSpan tx n) \<and>
     distinct (map name added) \<and>
     name ` set added \<inter> name ` set spans = {}"
proof (induction ms arbitrary: spans)
  case Nil
  show ?case by simp
next
  case (Cons m ms)
  from explicitStep_cases [of tx spans m] show ?case
  proof
    assume same: "explicitStep tx spans m = spans"
    from Cons.IH [of spans] obtain added where
      "foldl (explicitStep tx) spans ms = spans @ added" "length added \<le> length ms"
      "\<forall>s\<in>set added. \<exists>n. s = explicitSpan tx n" "distinct (map name added)"
      "name ` set added \<inter> name ` set spans = {}"
      by blast
    then show ?thesis
      using same by (intro exI [of _ added]) simp
  next
    assume new: "explicitStep tx spans m = spans @ [explicitSpan tx (toLowerCase m)] \<and>
      toLowerCase m \<notin> name ` set spans"
    define e where "e = explicitSpan tx (toLowerCase m)"
    have ne: "name e = toLowerCase m"
      by (simp add: e_def explicitSpan_def)
    from Cons.IH [of "spans @ [e]"] obtain added where a:
      "foldl (explicitStep tx) (spans @ [e]) ms = (spans @ [e]) @ added" "length added \<le> length ms"
      "\<forall>s\<in>set added. \<exists>n. s = explicitSpan tx n" "distinct (map name added)"
      "name ` set added \<inter> name ` set (spans @ [e]) = {}"
      by blast
    have "foldl (explicitStep tx) spans (m # ms) = spans @ (e # added)"
      using new a(1) by (simp add: e_def)
    moreover have "length (e # added) \<le> length (m # ms)"
      using a(2) by simp
    moreover have "\<forall>s\<in>set (e # added). \<exists>n. s = explicitSpan tx n"
      using a(3) e_def by auto
    moreover have "distinct (map name (e # added))"
      using a(4) a(5) by auto
    moreover have "name ` set (e # added) \<inter> name ` set spans = {}"
      using a(5) new ne by auto
    ultimately show ?thesis by blast
  qed
qed

lemma set_objectKeys: "set (objectKeys attrs) = fst ` set attrs"
  by (auto simp: objectKeys_def)

text \<open>
  C8. The list returned is the list of the first loop followed by what the second loop
  adds. Every span of the first loop has as \<open>pii_keys\<close> exactly the keys of its
  extracted attributes, as \<^verbatim>\<open>Object.keys\<close> lists them, whose lower-case form holds one
  of the twenty keywords; every span the second loop adds has no PII key. So the PII
  keys of every returned span are keys of its attributes.
\<close>

theorem pii_keys_derivation:
  "\<exists>added. extractSpansFromText tx = codeBlockSpans tx @ added \<and>
     (\<forall>s\<in>set (codeBlockSpans tx).
        attributes s = extractAttributes (name s) tx \<and>
        pii_keys s = filter (\<lambda>key. \<exists>keyword\<in>set
            [js ''email'', js ''phone'', js ''address'', js ''ssn'', js ''card'', js ''password'',
             js ''token'', js ''ip'', js ''street'', js ''city'', js ''zip'', js ''postal'',
             js ''credit'', js ''cvv'', js ''billing'', js ''shipping_address'',
             js ''billing_address'', js ''name'', js ''firstname'', js ''lastname''].
            strIncludes (toLowerCase key) keyword) (objectKeys (attributes s))) \<and>
     (\<forall>s\<in>set added. pii_keys s = []) \<and>
     (\<forall>s\<in>set (extractSpansFromText tx). set (pii_keys s) \<subseteq> fst ` set (attributes s))"
proof -
  from foldl_explicitStep [of tx "codeBlockSpans tx" "explicitMatches tx"]
  obtain added where a: "extractSpansFromText tx = codeBlockSpans tx @ added"
    and b: "\<forall>s\<in>set added. \<exists>n. s = explicitSpan tx n"
    unfolding extractSpansFromText_def by blast
  have p1: "\<forall>s\<in>set (codeBlockSpans tx).
        attributes s = extractAttributes (name s) tx \<and>
        pii_keys s = filter (\<lambda>key. \<exists>keyword\<in>set
            [js ''email'', js ''phone'', js ''address'', js ''ssn'', js ''card'', js ''password'',
             js ''token'', js ''ip'', js ''street'', js ''city'', js ''zip'', js ''postal'',
             js ''credit'', js ''cvv'', js ''billing'', js ''shipping_address'',
             js ''billing_address'', js ''name'', js ''firstname'', js ''lastname''].
            strIncludes (toLowerCase key) keyword) (objectKeys (attributes s))"
    by (auto simp: codeBlockSpans_def codeBlockSpan_def detectPIIKeys_def piiKeywords_def
        list_ex_iff)
  have p2: "\<forall>s\<in>set added. pii_keys s = []"
    using b by (auto simp: explicitSpan_def)
  have "\<forall>s\<in>set (codeBlockSpans tx). set (pii_keys s) \<subseteq> fst ` set (attributes s)"
  proof
    fix s assume "s \<in> set (codeBlockSpans tx)"
    with p1 have "set (pii_keys s) \<subseteq> set (objectKeys (attributes s))"
      by (metis (no_types, lifting) filter_is_subset)
    then show "set (pii_keys s) \<subseteq> fst ` set (attributes s)"
      by (simp add: set_objectKeys)
  qed
  with p2 have "\<forall>s\<in>set (extractSpansFromText tx). set (pii_keys s) \<subseteq> fst ` set (attributes s)"
    unfolding a by auto
  with a p1 p2 show ?thesis by blast
qed

text \<open>
  C9. \<^verbatim>\<open>extractSpansFromText\<close> and its helpers use no operation that can throw, and
  every loop of the model terminates, so a list is returned for every text. It has at
  most one span per match of the two patterns, and it is empty when neither pattern
  matches.
\<close>

theorem extractSpans_total:
  "length (extractSpansFromText tx) \<le> length (codeBlockMatches tx) + length (explicitMatches tx) \<and>
   (codeBlockMatches tx = [] \<and> explicitMatches tx = [] \<longrightarrow> extractSpansFromText tx = [])"
proof -
  from foldl_explicitStep [of tx "codeBlockSpans tx" "explicitMatches tx"]
  obtain added where a: "extractSpansFromText tx = codeBlockSpans tx @ added"
    and b: "length added \<le> length (explicitMatches tx)"
    unfolding extractSpansFromText_def by blast
  have "length (codeBlockSpans tx) \<le> length (codeBlockMatches tx)"
    by (simp add: codeBlockSpans_def)
  with a b have "length (extractSpansFromText tx) \<le> length (codeBlockMatches tx) + length (explicitMatches tx)"
    by simp
  then show ?thesis by auto
qed

lemma name_explicitSpan [simp]: "name (explicitSpan tx n) = n"
  by (simp add: explicitSpan_def)

lemmas match_eval_defs =
  codeBlockAt_def dottedName_def startsWithSpan_def isLower_def isAlpha_def isWhiteSpace_def
  isLineTerminator_def js_def

text \<open>
  C7. The first loop adds a span for every match without looking at the spans already
  found. A text that holds the same backtick-wrapped name twice gives two spans of that
  name. The second loop compares the lower-cased name, so a name with a capital letter
  that the first loop found is added once more in lower case.
\<close>

theorem duplicate_names_from_first_pattern:
  \<open>map name (extractSpansFromText (js ''Use `payment.process` here and `payment.process` there.'')) =
     [js ''payment.process'', js ''payment.process''] \<and>
   map name (extractSpansFromText (js ''Use `cart.addProduct`. Custom span: cart.addProduct'')) =
     [js ''cart.addProduct'', js ''cart.addproduct'']\<close>
proof -
  have 1: \<open>codeBlockMatches (js ''Use `payment.process` here and `payment.process` there.'') =
      [js ''payment.process'', js ''payment.process'']\<close>
    by (simp add: match_eval_defs)
  have 2: \<open>explicitMatches (js ''Use `payment.process` here and `payment.process` there.'') = []\<close>
    by (simp add: match_eval_defs)
  have 3: \<open>codeBlockMatches (js ''Use `cart.addProduct`. Custom span: cart.addProduct'') =
      [js ''cart.addProduct'']\<close>
    by (simp add: match_eval_defs)
  have 4: \<open>explicitMatches (js ''Use `cart.addProduct`. Custom span: cart.addProduct'') =
      [js ''cart.addProduct'']\<close>
    by (simp add: match_eval_defs)
  have 5: \<open>strIncludes (js ''payment.process'') [46]\<close> \<open>strIncludes (js ''cart.addProduct'') [46]\<close>
    \<open>strIncludes (js ''cart.addproduct'') [46]\<close>
    by (simp_all add: strIncludes_def startsWith_def js_def)
  have 6: \<open>toLowerCase (js ''cart.addProduct'') = js ''cart.addproduct''\<close>
    by (simp add: toLowerCase_def lowerUnit_def js_def)
  have 7: \<open>js ''cart.addProduct'' \<noteq> js ''cart.addproduct''\<close>
    by (simp add: js_def)
  show ?thesis
    unfolding extractSpansFromText_def codeBlockSpans_def 1 2 3 4
    using 7 by (simp add: 5 6 explicitStep_def)
qed

theorem extractSpans_total_witness:
  \<open>codeBlockMatches (js ''nothing to instrument here'') = [] \<and>
   explicitMatches (js ''nothing to instrument here'') = [] \<and>
   extractSpansFromText (js ''nothing to instrument here'') = []\<close>
proof -
  have 1: \<open>codeBlockMatches (js ''nothing to instrument here'') = []\<close>
    by (simp add: match_eval_defs)
  have 2: \<open>explicitMatches (js ''nothing to instrument here'') = []\<close>
    by (simp add: match_eval_defs)
  from extractSpans_total [of \<open>js ''nothing to instrument here''\<close>] 1 2 show ?thesis
    by blast
qed

definition piiWitnessText :: jsstring where
  \<open>piiWitnessText = js ''`a.b` `user_email` span: c.d''\<close>

theorem pii_keys_derivation_witness:
  \<open>map name (extractSpansFromText piiWitnessText) = [js ''a.b'', js ''c.d''] \<and>
   map attributes (extractSpansFromText piiWitnessText) =
     [[(js ''user_email'', js ''Tracks user email'')], []] \<and>
   map pii_keys (extractSpansFromText piiWitnessText) = [[js ''user_email''], []] \<and>
   list_all (\<lambda>s. set (pii_keys s) \<subseteq> fst ` set (attributes s)) (extractSpansFromText piiWitnessText)\<close>
proof -
  have 1: "codeBlockMatches piiWitnessText = [js ''a.b'']"
    by (simp add: piiWitnessText_def match_eval_defs)
  have 2: "explicitMatches piiWitnessText = [js ''c.d'']"
    by (simp add: piiWitnessText_def match_eval_defs)
  have 3: "strIncludes (js ''a.b'') [46]" "strIncludes (js ''c.d'') [46]"
    by (simp_all add: strIncludes_def startsWith_def js_def)
  have 4: "toLowerCase (js ''c.d'') = js ''c.d''"
    by (simp add: toLowerCase_def lowerUnit_def js_def)
  have 5: "extractAttributes (js ''a.b'') piiWitnessText = [(js ''user_email'', js ''Tracks user email'')]"
    by (simp add: piiWitnessText_def extractAttributes_def startsWith_def substring_def js_def
        attributesLabel_def toLowerCase_def lowerUnit_def bulletClass_def bulletAt_def
        isAttrChar_def isLower_def commonStep_def strIncludes_def attributeTruthy_def
        commonAttributeName_def setAttribute_def tracks_def)
  have 6: "extractAttributes (js ''c.d'') piiWitnessText = []"
    by (simp add: piiWitnessText_def extractAttributes_def startsWith_def substring_def js_def
        attributesLabel_def toLowerCase_def lowerUnit_def bulletClass_def bulletAt_def
        isAttrChar_def isLower_def commonStep_def strIncludes_def attributeTruthy_def
        commonAttributeName_def setAttribute_def tracks_def)
  have 7: "detectPIIKeys [(js ''user_email'', js ''Tracks user email'')] = [js ''user_email'']"
    by (simp add: detectPIIKeys_def objectKeys_def isArrayIndex_def piiKeywords_def
        toLowerCase_def lowerUnit_def strIncludes_def startsWith_def js_def)
  have spans: "extractSpansFromText piiWitnessText =
      [codeBlockSpan piiWitnessText (js ''a.b''), explicitSpan piiWitnessText (js ''c.d'')]"
  proof -
    have "js ''a.b'' \<noteq> js ''c.d''"
      by (simp add: js_def)
    then show ?thesis
      unfolding extractSpansFromText_def codeBlockSpans_def 1 2
      by (simp add: 3 4 explicitStep_def)
  qed
  from pii_keys_derivation [of piiWitnessText]
  have "\<forall>s\<in>set (extractSpansFromText piiWitnessText). set (pii_keys s) \<subseteq> fst ` set (attributes s)"
    by blast
  then have "list_all (\<lambda>s. set (pii_keys s) \<subseteq> fst ` set (attributes s)) (extractSpansFromText piiWitnessText)"
    by (simp add: list_all_iff)
  moreover have "map name (extractSpansFromText piiWitnessText) = [js ''a.b'', js ''c.d'']"
    unfolding spans by simp
  moreover have "map attributes (extractSpansFromText piiWitnessText) =
     [[(js ''user_email'', js ''Tracks user email'')], []]"
    unfolding spans by (simp add: codeBlockSpan_def explicitSpan_def 5 6)
  moreover have "map pii_keys (extractSpansFromText piiWitnessText) = [[js ''user_email''], []]"
    unfolding spans by (simp add: codeBlockSpan_def explicitSpan_def 5 7)
  ultimately show ?thesis by blast
qed

subsection \<open>The basic case\<close>

definition basicCaseText :: jsstring where
  \<open>basicCaseText = js ''Add a custom span `checkout.validate_cart`: validates the cart before payment. Attributes: `cart_value`, `item_count`.''\<close>

lemma basicCase_units: "basicCaseText = [65, 100, 100, 32, 97, 32, 99, 117, 115, 116, 111, 109, 32, 115, 112, 97, 110, 32, 96, 99, 104, 101, 99, 107, 111, 117, 116, 46, 118, 97, 108, 105, 100, 97, 116, 101, 95, 99, 97, 114, 116, 96, 58, 32, 118, 97, 108, 105, 100, 97, 116, 101, 115, 32, 116, 104, 101, 32, 99, 97, 114, 116, 32, 98, 101, 102, 111, 114, 101, 32, 112, 97, 121, 109, 101, 110, 116, 46, 32, 65, 116, 116, 114, 105, 98, 117, 116, 101, 115, 58, 32, 96, 99, 97, 114, 116, 95, 118, 97, 108, 117, 101, 96, 44, 32, 96, 105, 116, 101, 109, 95, 99, 111, 117, 110, 116, 96, 46]"
  by (simp add: basicCaseText_def js_def)

lemma basicCase_codeBlock: "codeBlockMatches basicCaseText = []"
  unfolding basicCase_units
  by (simp add: codeBlockAt_def dottedName_def isLower_def isAlpha_def)

lemma basicCase_explicit: "explicitMatches basicCaseText = [js ''checkout.validate'']"
  unfolding basicCase_units
  by (simp add: startsWithSpan_def dottedName_def isLower_def isAlpha_def isWhiteSpace_def isLineTerminator_def js_def)

definition basicCase_tail :: jsstring where
  "basicCase_tail = [99, 104, 101, 99, 107, 111, 117, 116, 46, 118, 97, 108, 105, 100, 97, 116, 101, 95, 99, 97, 114, 116, 96, 58, 32, 118, 97, 108, 105, 100, 97, 116, 101, 115, 32, 116, 104, 101, 32, 99, 97, 114, 116, 32, 98, 101, 102, 111, 114, 101, 32, 112, 97, 121, 109, 101, 110, 116, 46, 32, 65, 116, 116, 114, 105, 98, 117, 116, 101, 115, 58, 32, 96, 99, 97, 114, 116, 95, 118, 97, 108, 117, 101, 96, 44, 32, 96, 105, 116, 101, 109, 95, 99, 111, 117, 110, 116, 96, 46]"

lemma basicCase_name_units: "js ''checkout.validate'' = [99, 104, 101, 99, 107, 111, 117, 116, 46, 118, 97, 108, 105, 100, 97, 116, 101]"
  by (simp add: js_def)

lemma basicCase_index: "indexOf (js ''checkout.validate'') basicCaseText = Some 19"
  unfolding basicCase_units basicCase_name_units by (simp add: startsWith_def)

lemma basicCase_after: "substring basicCaseText 19 (19 + 300) = basicCase_tail"
  unfolding basicCase_units basicCase_tail_def by (simp add: substring_def)

lemma basicCase_context: "substring basicCaseText 19 (19 + 400) = basicCase_tail"
  unfolding basicCase_units basicCase_tail_def by (simp add: substring_def)

lemma basicCase_description: "extractDescription (js ''checkout.validate'') basicCaseText = js ''validates the cart before payment''"
  unfolding extractDescription_def basicCase_index option.case Let_def basicCase_after
  unfolding basicCase_tail_def
  by (simp add: colonAt_def wsCapture_def descChar_def descEnd_def descClass_def isWhiteSpace_def trim_def js_def)

lemma basicCase_attributes: "extractAttributes (js ''checkout.validate'') basicCaseText =
    [(js ''cart_value'', js ''Tracks cart value''), (js ''item_count'', js ''Tracks item count'')]"
  unfolding extractAttributes_def basicCase_index option.case Let_def basicCase_context
  unfolding basicCase_tail_def
  by (simp add: attributesLabel_def wsCapture_def toLowerCase_def lowerUnit_def isWhiteSpace_def js_def
      isAttrChar_def isLower_def labelledStep_def strIncludes_def startsWith_def setAttribute_def tracks_def
      bulletClass_def bulletAt_def commonStep_def attributeTruthy_def)

definition basicCase_lower :: jsstring where
  "basicCase_lower = [97, 100, 100, 32, 97, 32, 99, 117, 115, 116, 111, 109, 32, 115, 112, 97, 110, 32, 96, 99, 104, 101, 99, 107, 111, 117, 116, 46, 118, 97, 108, 105, 100, 97, 116, 101, 95, 99, 97, 114, 116, 96, 58, 32, 118, 97, 108, 105, 100, 97, 116, 101, 115, 32, 116, 104, 101, 32, 99, 97, 114, 116, 32, 98, 101, 102, 111, 114, 101, 32, 112, 97, 121, 109, 101, 110, 116, 46, 32, 97, 116, 116, 114, 105, 98, 117, 116, 101, 115, 58, 32, 96, 99, 97, 114, 116, 95, 118, 97, 108, 117, 101, 96, 44, 32, 96, 105, 116, 101, 109, 95, 99, 111, 117, 110, 116, 96, 46]"

lemma basicCase_lowered: "toLowerCase basicCaseText = basicCase_lower"
  unfolding basicCase_units basicCase_lower_def by (simp add: toLowerCase_def lowerUnit_def)

lemma basicCase_name_lowered: "toLowerCase (js ''checkout.validate'') = js ''checkout.validate''"
  by (simp add: toLowerCase_def lowerUnit_def js_def)

lemma basicCase_lowered_index: "indexOf (js ''checkout.validate'') basicCase_lower = Some 19"
  unfolding basicCase_lower_def basicCase_name_units by (simp add: startsWith_def)

lemma basicCase_window: "substring basicCase_lower (nat (max 0 (int 19 - 100))) (nat (min (int (length basicCase_lower)) (int 19 + 100))) = basicCase_lower"
  unfolding basicCase_lower_def by (simp add: substring_def)

lemma basicCase_no_frontend_word:
  "\<not> strIncludes basicCase_lower (js ''frontend'')" "\<not> strIncludes basicCase_lower (js ''client'')"
  "\<not> strIncludes basicCase_lower (js ''browser'')" "\<not> strIncludes basicCase_lower (js ''user action'')"
  "\<not> strIncludes basicCase_lower (js ''click'')" "\<not> strIncludes basicCase_lower (js ''submit'')"
  unfolding basicCase_lower_def by (simp_all add: strIncludes_def startsWith_def js_def)

lemma basicCase_layer: "guessLayer (js ''checkout.validate'') basicCaseText = Backend"
  unfolding guessLayer_def basicCase_lowered basicCase_name_lowered basicCase_lowered_index option.case Let_def basicCase_window
  by (simp add: basicCase_no_frontend_word)

lemma basicCase_name_dotted: "strIncludes (js ''checkout.validate'') [46]"
  unfolding basicCase_name_units by (simp add: strIncludes_def startsWith_def)

text \<open>
  C6. On the sentence of the basic case the backtick pattern finds nothing, because the
  name \<^verbatim>\<open>checkout.validate_cart\<close> holds an underscore, which neither \<^verbatim>\<open>[a-z]\<close> nor
  \<^verbatim>\<open>[a-zA-Z]\<close> matches. The second pattern matches after the word \<^verbatim>\<open>span\<close> and stops
  before the underscore: the single span returned is named \<^verbatim>\<open>checkout.validate\<close>.
\<close>

theorem basic_case_truncated_name:
  "extractSpansFromText basicCaseText =
     [\<lparr>name = js ''checkout.validate'',
       op = js ''checkout'',
       layer = Backend,
       description = js ''validates the cart before payment'',
       attributes = [(js ''cart_value'', js ''Tracks cart value''),
                     (js ''item_count'', js ''Tracks item count'')],
       pii_keys = []\<rparr>]"
proof -
  have basicCase_op: "takeWhile (\<lambda>c. c \<noteq> 46) (js ''checkout.validate'') = js ''checkout''"
    by (simp add: js_def)
  have basicCase_desc_nonempty: "js ''validates the cart before payment'' \<noteq> []"
    by (simp add: js_def)
  show ?thesis
    unfolding extractSpansFromText_def codeBlockSpans_def basicCase_codeBlock basicCase_explicit
    by (simp add: explicitStep_def basicCase_name_lowered basicCase_name_dotted explicitSpan_def describe_def basicCase_description basicCase_attributes basicCase_layer basicCase_op basicCase_desc_nonempty)
qed

end
